theory Spec2Isabelle
  imports Main "HOL-Library.Word"
begin

chapter \<open>The program\<close>

section \<open>Selectors (the data model of the extender)\<close>

text \<open>
  The selector classes of the AST, as the extender reads them: a simple selector is a
  type, class, id, placeholder, attribute or pseudo selector; a pseudo selector carries
  its name, its normalized name, an optional argument and an optional nested selector
  list. A complex selector is a sequence of components, each a compound selector (a
  sequence of simple selectors) or a combinator, with the \<open>hasPreLineFeed\<close> flag.
\<close>

datatype Combinator = Descendant | Child | Adjacent | Sibling

datatype SimpleSelector =
    Type_Selector string
  | Class_Selector string
  | Id_Selector string
  | Placeholder_Selector string
  | Attribute_Selector string string string
  | Pseudo_Selector (name: string) (normalized: string) (argument: "string option")
      (selector: "ComplexSelector list option")
and SelectorComponent =
    CompoundSelector "SimpleSelector list"
  | SelectorCombinator Combinator
and ComplexSelector =
    ComplexSelector (elements: "SelectorComponent list") (hasPreLineFeed: bool)

text \<open>
  A \<^verbatim>\<open>ComplexSelectorObj\<close> is a counted reference: the address of a complex selector
  and the selector it points to. The set \<^verbatim>\<open>originals\<close> is a set of such references
  ("complex-selector handles"), a member being found by its address.
\<close>

datatype ComplexSelectorObj = ComplexSelectorObj (addr: nat) (deref: ComplexSelector)

section \<open>extendPseudoComplex (extender, lines 874-917)\<close>

text \<open>
  The two guards of the \<^verbatim>\<open>else if\<close> chain, written as the source writes them:
  a conjunction of equalities of the one string \<open>name\<close> with different literals.
\<close>

definition guard_matches :: "string \<Rightarrow> bool" where
  "guard_matches nm \<longleftrightarrow>
     nm = ''matches'' \<and> nm = ''any'' \<and> nm = ''current'' \<and> nm = ''nth-child''
       \<and> nm = ''nth-last-child''"

definition guard_has :: "string \<Rightarrow> bool" where
  "guard_has nm \<longleftrightarrow>
     nm = ''has'' \<and> nm = ''host'' \<and> nm = ''host-context'' \<and> nm = ''slotted''"

text \<open>
  The chain after the five early returns: \<open>complex\<close> is the selector looked at,
  \<open>innerPseudo\<close> the pseudo selector it consists of, \<open>inner\<close> that pseudo's
  selector list, \<open>pseudo\<close> the pseudo selector being extended.
\<close>

definition extendPseudoComplex_chain ::
  "ComplexSelector \<Rightarrow> SimpleSelector \<Rightarrow> ComplexSelector list \<Rightarrow> SimpleSelector
     \<Rightarrow> ComplexSelector list" where
  "extendPseudoComplex_chain complex innerPseudo inner pseudo =
     (if normalized pseudo = ''not'' then
        (if normalized innerPseudo \<noteq> ''matches'' then [] else inner)
      else if guard_matches (normalized pseudo) then
        (if name innerPseudo \<noteq> name pseudo then []
         else if argument innerPseudo \<noteq> argument pseudo then []
         else inner)
      else if guard_has (normalized pseudo) then [complex]
      else [])"

text \<open>
  \<^verbatim>\<open>extendPseudoComplex(complex, pseudo, mediaQueryContext)\<close>: the early returns give
  back \<open>[complex]\<close> unless \<open>complex\<close> is one compound selector made of one pseudo
  selector that has a selector list. The media context is not read.
\<close>

definition extendPseudoComplex :: "ComplexSelector \<Rightarrow> SimpleSelector \<Rightarrow> ComplexSelector list" where
  "extendPseudoComplex complex pseudo =
     (case elements complex of
        [CompoundSelector [Pseudo_Selector n nn a (Some inner)]] \<Rightarrow>
          extendPseudoComplex_chain complex (Pseudo_Selector n nn a (Some inner)) inner pseudo
      | _ \<Rightarrow> [complex])"

section \<open>Extensions and media contexts (extension.cpp)\<close>

text \<open>
  A media rule object: the address of its block (compared by \<^verbatim>\<open>ObjPtrEqualityFn\<close>)
  and its media queries. A media context is a nullable reference to one
  (\<open>None\<close> is the null context of a rule outside every \<^verbatim>\<open>@media\<close>).
\<close>

datatype CssMediaRule = CssMediaRule (block: nat) (queries: "string list")

text \<open>
  An extension: extender, target (null for a one-off extension), specificity, the two
  flags and the media context in which the \<^verbatim>\<open>@extend\<close> was written.
\<close>

datatype Extension = Extension
  (extender: ComplexSelectorObj)
  (target: "SimpleSelector option")
  (specificity: nat)
  (isOptional: bool)
  (isOriginal: bool)
  (mediaContext: "CssMediaRule option")

text \<open>
  What the code throws: \<open>ExtendAcrossMedia\<close> for an extension (error_handling.cpp),
  and the error of \<^verbatim>\<open>error(msg, pstate)\<close> with its message.
\<close>

datatype Exception =
    ExtendAcrossMedia Extension
  | Error_Invalid string

text \<open>
  Modelled from the spec: \<^verbatim>\<open>ObjEqualityFn\<close> (ast_helpers.hpp is not among the sources)
  compares two nullable references "by value, or both null"; \<open>eqv\<close> is the value
  comparison \<^verbatim>\<open>*lhs == *rhs\<close> of the referenced objects.
\<close>

definition ObjEqualityFn :: "('a \<Rightarrow> 'a \<Rightarrow> bool) \<Rightarrow> 'a option \<Rightarrow> 'a option \<Rightarrow> bool" where
  "ObjEqualityFn eqv lhs rhs =
     (case lhs of
        None \<Rightarrow> rhs = None
      | Some l \<Rightarrow> (case rhs of None \<Rightarrow> False | Some r \<Rightarrow> eqv l r))"

text \<open>
  \<^verbatim>\<open>Extension::assertCompatibleMediaContext(mediaQueryContext, traces)\<close>: three
  returns, then the throw. \<open>None\<close> is a normal return, \<open>Some e\<close> the exception thrown.
\<close>

definition assertCompatibleMediaContext ::
  "(CssMediaRule \<Rightarrow> CssMediaRule \<Rightarrow> bool) \<Rightarrow> Extension \<Rightarrow> CssMediaRule option
     \<Rightarrow> Exception option" where
  "assertCompatibleMediaContext eqv this mediaQueryContext =
     (case mediaContext this of
        None \<Rightarrow> None
      | Some own \<Rightarrow>
          if (case mediaQueryContext of None \<Rightarrow> False | Some ctx \<Rightarrow> block own = block ctx)
          then None
          else if ObjEqualityFn eqv mediaQueryContext (mediaContext this) then None
          else Some (ExtendAcrossMedia this))"

text \<open>
  Two media contexts share their block: both are references and the two rules hold
  the address of the same block.
\<close>

definition shares_block :: "CssMediaRule option \<Rightarrow> CssMediaRule option \<Rightarrow> bool" where
  "shares_block a b =
     (case a of
        None \<Rightarrow> False
      | Some x \<Rightarrow> (case b of None \<Rightarrow> False | Some y \<Rightarrow> block x = block y))"

text \<open>Value comparison of two media rules by their queries, for the examples.\<close>

definition same_queries :: "CssMediaRule \<Rightarrow> CssMediaRule \<Rightarrow> bool" where
  "same_queries a b \<longleftrightarrow> queries a = queries b"

section \<open>The extender: trim (lines 981-1102)\<close>

text \<open>
  The operations of the selector classes that the extender calls and whose code is
  not among the sources (ast_selectors, ast_sel_cmp, ast_sel_super): they are
  parameters of the model. \<open>isSuperselectorOf A x y\<close> is \<^verbatim>\<open>x->isSuperselectorOf(y)\<close>;
  \<open>equalComplex\<close>, \<open>equalSimple\<close>, \<open>equalList\<close> and \<open>equalMedia\<close> are
  \<^verbatim>\<open>operator==\<close> on complex selectors, simple selectors, selector lists and
  media rules (the comparison behind \<^verbatim>\<open>ObjEquality\<close> and \<^verbatim>\<open>ObjEqualityFn\<close>).
\<close>

record AstOps =
  isSuperselectorOf :: "ComplexSelector \<Rightarrow> ComplexSelector \<Rightarrow> bool"
  minSpecificity :: "ComplexSelector \<Rightarrow> nat"
  maxSpecificity :: "ComplexSelector \<Rightarrow> nat"
  equalComplex :: "ComplexSelector \<Rightarrow> ComplexSelector \<Rightarrow> bool"
  equalSimple :: "SimpleSelector \<Rightarrow> SimpleSelector \<Rightarrow> bool"
  equalList :: "ComplexSelector list \<Rightarrow> ComplexSelector list \<Rightarrow> bool"
  equalMedia :: "CssMediaRule \<Rightarrow> CssMediaRule \<Rightarrow> bool"

text \<open>
  A hash map keyed by selectors, as a list of entries in insertion order; a key is
  found with the comparison \<open>eq\<close> of the map.
\<close>

fun find_entry :: "('k \<Rightarrow> 'k \<Rightarrow> bool) \<Rightarrow> ('k \<times> 'v) list \<Rightarrow> 'k \<Rightarrow> 'v option" where
  "find_entry eq [] k = None"
| "find_entry eq ((k', v) # rest) k = (if eq k' k then Some v else find_entry eq rest k)"

text \<open>\<^verbatim>\<open>maxSourceSpecificity(simple)\<close> and \<^verbatim>\<open>maxSourceSpecificity(compound)\<close>.\<close>

definition maxSourceSpecificity ::
  "AstOps \<Rightarrow> (SimpleSelector \<times> nat) list \<Rightarrow> SimpleSelector \<Rightarrow> nat" where
  "maxSourceSpecificity A sourceSpecificity simple =
     (case find_entry (equalSimple A) sourceSpecificity simple of None \<Rightarrow> 0 | Some v \<Rightarrow> v)"

definition maxSourceSpecificity_compound ::
  "AstOps \<Rightarrow> (SimpleSelector \<times> nat) list \<Rightarrow> SimpleSelector list \<Rightarrow> nat" where
  "maxSourceSpecificity_compound A sourceSpecificity compound =
     foldl (\<lambda>specificity simple. max specificity (maxSourceSpecificity A sourceSpecificity simple))
       0 compound"

text \<open>
  The loop of \<^verbatim>\<open>trim\<close> that computes \<open>maxSpecificity\<close> of \<open>complex1\<close>: the maximum over
  its compound selectors.
\<close>

definition maxSpecificity_of ::
  "AstOps \<Rightarrow> (SimpleSelector \<times> nat) list \<Rightarrow> ComplexSelector \<Rightarrow> nat" where
  "maxSpecificity_of A sourceSpecificity complex1 =
     foldl (\<lambda>maxSpec component.
              case component of
                CompoundSelector compound \<Rightarrow>
                  max maxSpec (maxSourceSpecificity_compound A sourceSpecificity compound)
              | SelectorCombinator c \<Rightarrow> maxSpec)
       0 (elements complex1)"

definition dontTrimComplex :: "AstOps \<Rightarrow> ComplexSelector \<Rightarrow> ComplexSelector \<Rightarrow> nat \<Rightarrow> bool" where
  "dontTrimComplex A complex2 complex1 maxSpec =
     (if minSpecificity A complex2 < maxSpec then False
      else isSuperselectorOf A complex2 complex1)"

text \<open>
  Modelled from the spec: \<^verbatim>\<open>hasAny\<close> and \<^verbatim>\<open>hasSubAny\<close> (dart_helpers.hpp is not among
  the sources): whether the function holds of any element of the container, and of
  any of its first \<open>len\<close> elements ("check if any element (up to [i]) ... returns
  true", in the words of the comment in \<^verbatim>\<open>trim\<close>).
\<close>

definition hasAny :: "'a list \<Rightarrow> ('a \<Rightarrow> bool) \<Rightarrow> bool" where
  "hasAny cnt fn = list_ex fn cnt"

definition hasSubAny :: "'a list \<Rightarrow> nat \<Rightarrow> ('a \<Rightarrow> bool) \<Rightarrow> bool" where
  "hasSubAny cnt len fn = list_ex fn (take len cnt)"

text \<open>
  \<^verbatim>\<open>rotateSlice(list, start, end)\<close>: the loop passes \<open>element\<close> one index up, the
  last element of the slice having been put first.
\<close>

function rotateSlice_loop :: "'a list \<Rightarrow> nat \<Rightarrow> nat \<Rightarrow> 'a \<Rightarrow> 'a list" where
  "rotateSlice_loop list i end' element =
     (if i < end' then rotateSlice_loop (list[i := element]) (Suc i) end' (list ! i)
      else list)"
  by pat_completeness auto
termination
  by (relation "measure (\<lambda>(list, i, end', element). end' - i)") auto

declare rotateSlice_loop.simps [simp del]

definition rotateSlice :: "'a list \<Rightarrow> nat \<Rightarrow> nat \<Rightarrow> 'a list" where
  "rotateSlice list start end' = rotateSlice_loop list start end' (list ! (end' - 1))"

text \<open>
  The inner loop over \<open>j < numOriginals\<close>: the first \<open>j\<close> with
  \<^verbatim>\<open>*result[j] == *complex1\<close>, if there is one.
\<close>

function find_duplicate ::
  "AstOps \<Rightarrow> ComplexSelectorObj list \<Rightarrow> nat \<Rightarrow> ComplexSelectorObj \<Rightarrow> nat \<Rightarrow> nat option" where
  "find_duplicate A result numOriginals complex1 j =
     (if j < numOriginals then
        (if equalComplex A (deref (result ! j)) (deref complex1) then Some j
         else find_duplicate A result numOriginals complex1 (Suc j))
      else None)"
  by pat_completeness auto
termination
  by (relation "measure (\<lambda>(A, result, numOriginals, complex1, j). numOriginals - j)") auto

declare find_duplicate.simps [simp del]

text \<open>
  One run of the \<^verbatim>\<open>for\<close> loop from the index \<open>i\<close> down to 0; the argument counts the
  selectors still to visit, \<open>Suc i\<close> standing for the index \<open>i\<close>. The run ends at the
  end of the loop (\<open>Done\<close>) or at \<^verbatim>\<open>goto redo\<close> (\<open>Redo\<close>, with \<open>result\<close> and
  \<open>numOriginals\<close> as they are then).
\<close>

datatype ScanResult =
    Done "ComplexSelectorObj list"
  | Redo "ComplexSelectorObj list" nat

fun trim_scan ::
  "AstOps \<Rightarrow> (SimpleSelector \<times> nat) list \<Rightarrow> nat set \<Rightarrow> ComplexSelectorObj list \<Rightarrow> nat
     \<Rightarrow> ComplexSelectorObj list \<Rightarrow> nat \<Rightarrow> ScanResult" where
  "trim_scan A sourceSpecificity existing selectors 0 result numOriginals = Done result"
| "trim_scan A sourceSpecificity existing selectors (Suc i) result numOriginals =
     (let complex1 = selectors ! i in
      if addr complex1 \<in> existing then
        (case find_duplicate A result numOriginals complex1 0 of
           Some j \<Rightarrow> Redo (rotateSlice result 0 (j + 1)) numOriginals
         | None \<Rightarrow>
             trim_scan A sourceSpecificity existing selectors i (complex1 # result)
               (numOriginals + 1))
      else
        (let maxSpec = maxSpecificity_of A sourceSpecificity (deref complex1) in
         if hasAny result (\<lambda>complex2. dontTrimComplex A (deref complex2) (deref complex1) maxSpec)
         then trim_scan A sourceSpecificity existing selectors i result numOriginals
         else if hasSubAny selectors i
                   (\<lambda>complex2. dontTrimComplex A (deref complex2) (deref complex1) maxSpec)
         then trim_scan A sourceSpecificity existing selectors i result numOriginals
         else trim_scan A sourceSpecificity existing selectors i (complex1 # result) numOriginals))"

text \<open>
  The label \<^verbatim>\<open>redo\<close> stands before the \<^verbatim>\<open>for\<close> loop, so \<^verbatim>\<open>goto redo\<close> starts the
  loop again at the last index, with \<open>result\<close> and \<open>numOriginals\<close> kept. Nothing
  bounds the number of restarts: \<open>fuel\<close> does, and \<open>None\<close> says that the fuel did
  not suffice.
\<close>

fun trim_redo ::
  "nat \<Rightarrow> AstOps \<Rightarrow> (SimpleSelector \<times> nat) list \<Rightarrow> nat set \<Rightarrow> ComplexSelectorObj list
     \<Rightarrow> ComplexSelectorObj list \<Rightarrow> nat \<Rightarrow> ComplexSelectorObj list option" where
  "trim_redo 0 A sourceSpecificity existing selectors result numOriginals = None"
| "trim_redo (Suc fuel) A sourceSpecificity existing selectors result numOriginals =
     (case trim_scan A sourceSpecificity existing selectors (length selectors) result numOriginals of
        Done r \<Rightarrow> Some r
      | Redo r n \<Rightarrow> trim_redo fuel A sourceSpecificity existing selectors r n)"

definition trim ::
  "nat \<Rightarrow> AstOps \<Rightarrow> (SimpleSelector \<times> nat) list \<Rightarrow> ComplexSelectorObj list \<Rightarrow> nat set
     \<Rightarrow> ComplexSelectorObj list option" where
  "trim fuel A sourceSpecificity selectors existing =
     (if length selectors > 100 then Some selectors
      else trim_redo fuel A sourceSpecificity existing selectors [] 0)"

subsection \<open>Trimming in the words of the specification\<close>

text \<open>
  \<open>d\<close> makes \<open>c\<close> redundant: \<open>d\<close> is a superselector of \<open>c\<close> and its specificity is at
  least the maximum source specificity of the compounds of \<open>c\<close>.
\<close>

definition dominates ::
  "AstOps \<Rightarrow> (SimpleSelector \<times> nat) list \<Rightarrow> ComplexSelectorObj \<Rightarrow> ComplexSelectorObj \<Rightarrow> bool" where
  "dominates A sourceSpecificity d c \<longleftrightarrow>
     maxSpecificity_of A sourceSpecificity (deref c) \<le> minSpecificity A (deref d)
     \<and> isSuperselectorOf A (deref d) (deref c)"

text \<open>
  The candidates that stay, for the candidates \<open>c # post\<close> that come after the
  candidates \<open>pre\<close>: \<open>c\<close> is removed exactly when it is not in \<open>originals\<close> and a
  selector retained from those after it, or a candidate before it, makes it
  redundant.
\<close>

fun retained ::
  "AstOps \<Rightarrow> (SimpleSelector \<times> nat) list \<Rightarrow> nat set \<Rightarrow> ComplexSelectorObj list
     \<Rightarrow> ComplexSelectorObj list \<Rightarrow> ComplexSelectorObj list" where
  "retained A sourceSpecificity existing pre [] = []"
| "retained A sourceSpecificity existing pre (c # post) =
     (let rest = retained A sourceSpecificity existing (pre @ [c]) post in
      if addr c \<notin> existing
         \<and> (list_ex (\<lambda>d. dominates A sourceSpecificity d c) rest
              \<or> list_ex (\<lambda>d. dominates A sourceSpecificity d c) pre)
      then rest else c # rest)"

text \<open>
  No original meets a copy of itself: when the loop comes to an original \<open>c\<close>, none of
  the first \<open>numOriginals\<close> selectors of \<open>result\<close> is equal to it (\<open>numOriginals\<close> is
  the number of originals after \<open>c\<close>).
\<close>

fun no_duplicate_originals ::
  "AstOps \<Rightarrow> (SimpleSelector \<times> nat) list \<Rightarrow> nat set \<Rightarrow> ComplexSelectorObj list
     \<Rightarrow> ComplexSelectorObj list \<Rightarrow> bool" where
  "no_duplicate_originals A sourceSpecificity existing pre [] = True"
| "no_duplicate_originals A sourceSpecificity existing pre (c # post) =
     (no_duplicate_originals A sourceSpecificity existing (pre @ [c]) post
      \<and> (addr c \<notin> existing
           \<or> \<not> list_ex (\<lambda>d. equalComplex A (deref d) (deref c))
                 (take (length (filter (\<lambda>d. addr d \<in> existing) post))
                    (retained A sourceSpecificity existing (pre @ [c]) post))))"

subsection \<open>Selector operations for the examples\<close>

text \<open>
  Modelled from the spec: the operations on complex selectors that are one compound
  selector of class selectors (sections 4.A and 4.C; their code is not among the
  sources). Such a selector is a superselector of another when each of its classes
  is a class of the other; every class counts 1000 for the specificity; two
  selectors are equal when they have the same classes, two lists when they have
  equal selectors in the same order. Only the examples use them.
\<close>

definition classes_of :: "ComplexSelector \<Rightarrow> SimpleSelector list" where
  "classes_of c = (case elements c of [CompoundSelector xs] \<Rightarrow> xs | _ \<Rightarrow> [])"

definition class_ops :: AstOps where
  "class_ops =
     \<lparr> isSuperselectorOf = (\<lambda>x y. list_all (\<lambda>s. s \<in> set (classes_of y)) (classes_of x)),
       minSpecificity = (\<lambda>c. 1000 * length (classes_of c)),
       maxSpecificity = (\<lambda>c. 1000 * length (classes_of c)),
       equalComplex = (\<lambda>x y. length (classes_of x) = length (classes_of y)
                              \<and> list_all (\<lambda>s. s \<in> set (classes_of y)) (classes_of x)),
       equalSimple = (\<lambda>x y. x = y),
       equalList = (\<lambda>xs ys. map classes_of xs = map classes_of ys),
       equalMedia = same_queries \<rparr>"

text \<open>The complex selector of one compound of the classes named, at an address.\<close>

definition classes :: "nat \<Rightarrow> string list \<Rightarrow> ComplexSelectorObj" where
  "classes a names =
     ComplexSelectorObj a (ComplexSelector [CompoundSelector (map Class_Selector names)] False)"

text \<open>
  The candidates that \<^verbatim>\<open>extendList\<close> hands to \<^verbatim>\<open>trim\<close> for the rule
  \<^verbatim>\<open>.a, .a, .b {...}\<close> once \<^verbatim>\<open>.x {@extend .b}\<close> is added: the two selectors
  \<^verbatim>\<open>.a\<close> of the rule as they are, the copy of \<^verbatim>\<open>.b\<close> (an original, as the
  two are), and the extender \<^verbatim>\<open>.x\<close>.
\<close>

definition dup_input :: "ComplexSelectorObj list" where
  "dup_input = [classes 10 [''a''], classes 20 [''a''], classes 30 [''b''], classes 40 [''x'']]"

section \<open>The extender: state and helpers\<close>

datatype ExtendMode = TARGETS | REPLACE | NORMAL

text \<open>
  The maps of the extender. \<^verbatim>\<open>ExtSelExtMapEntry\<close> is the insertion-ordered map from
  extenders to extensions, \<^verbatim>\<open>ExtSelExtMap\<close> the map from targets to such entries,
  \<^verbatim>\<open>ExtSmplSelSet\<close> a set of simple selectors; all find their keys by value.
\<close>

type_synonym ExtSelExtMapEntry = "(ComplexSelectorObj \<times> Extension) list"
type_synonym ExtSelExtMap = "(SimpleSelector \<times> ExtSelExtMapEntry) list"
type_synonym ExtSmplSelSet = "SimpleSelector list"

text \<open>
  The members of \<^verbatim>\<open>Extender\<close>, and with them the memory the extender works on:
  \<open>lists\<close> holds the elements of every selector-list object by its address (the
  style rules' selector lists are shared with the rest of the compiler and changed in
  place), \<open>next_addr\<close> is the address the next \<^verbatim>\<open>SASS_MEMORY_NEW\<close> returns.
  \<open>selectors\<close> maps a simple selector to the addresses of the selector lists that
  contain it, \<open>mediaContexts\<close> a selector list's address to its media rule,
  \<open>originals\<close> is the set of addresses of the original complex selectors.
\<close>

record Extender =
  mode :: ExtendMode
  selectors :: "(SimpleSelector \<times> nat list) list"
  extensions :: ExtSelExtMap
  extensionsByExtender :: "(SimpleSelector \<times> Extension list) list"
  mediaContexts :: "(nat \<times> CssMediaRule) list"
  sourceSpecificity :: "(SimpleSelector \<times> nat) list"
  originals :: "nat set"
  lists :: "nat \<Rightarrow> ComplexSelectorObj list"
  next_addr :: nat

text \<open>
  How a member function ends: it returns a value, or throws, in both cases leaving
  the extender in some state, or it does not return at all.
\<close>

datatype 'a Outcome =
    Returns 'a Extender
  | Throws Exception Extender
  | Diverges

text \<open>Map operations: \<^verbatim>\<open>hasKey\<close>/\<^verbatim>\<open>find\<close>, insertion and \<^verbatim>\<open>erase\<close>, keys found with \<open>eq\<close>.\<close>

definition has_key :: "('k \<Rightarrow> 'k \<Rightarrow> bool) \<Rightarrow> ('k \<times> 'v) list \<Rightarrow> 'k \<Rightarrow> bool" where
  "has_key eq m k \<longleftrightarrow> find_entry eq m k \<noteq> None"

text \<open>
  Modelled from the spec: the insertion-ordered map (ordered_map.hpp is not among the
  sources) is an "order-preserving associative container": \<open>insert\<close> puts the value
  under the key, at the end when the key is new, in place when it is there.
\<close>

fun insert_entry :: "('k \<Rightarrow> 'k \<Rightarrow> bool) \<Rightarrow> 'k \<Rightarrow> 'v \<Rightarrow> ('k \<times> 'v) list \<Rightarrow> ('k \<times> 'v) list" where
  "insert_entry eq k v [] = [(k, v)]"
| "insert_entry eq k v ((k', v') # rest) =
     (if eq k' k then (k', v) # rest else (k', v') # insert_entry eq k v rest)"

fun erase_entry :: "('k \<Rightarrow> 'k \<Rightarrow> bool) \<Rightarrow> 'k \<Rightarrow> ('k \<times> 'v) list \<Rightarrow> ('k \<times> 'v) list" where
  "erase_entry eq k [] = []"
| "erase_entry eq k ((k', v') # rest) =
     (if eq k' k then rest else (k', v') # erase_entry eq k rest)"

text \<open>\<^verbatim>\<open>map[k]\<close> of a hash map: the entry, made with the default value when missing.\<close>

definition entry_or_default :: "('k \<Rightarrow> 'k \<Rightarrow> bool) \<Rightarrow> 'v \<Rightarrow> ('k \<times> 'v) list \<Rightarrow> 'k \<Rightarrow> 'v" where
  "entry_or_default eq dflt m k = (case find_entry eq m k of None \<Rightarrow> dflt | Some v \<Rightarrow> v)"

definition touch_entry :: "('k \<Rightarrow> 'k \<Rightarrow> bool) \<Rightarrow> 'v \<Rightarrow> 'k \<Rightarrow> ('k \<times> 'v) list \<Rightarrow> ('k \<times> 'v) list" where
  "touch_entry eq dflt k m = (if has_key eq m k then m else m @ [(k, dflt)])"

definition complexKey :: "AstOps \<Rightarrow> ComplexSelectorObj \<Rightarrow> ComplexSelectorObj \<Rightarrow> bool" where
  "complexKey A x y = equalComplex A (deref x) (deref y)"

text \<open>\<^verbatim>\<open>SASS_MEMORY_NEW(ComplexSelector, ...)\<close>: a new object at the next address.\<close>

definition new_ComplexSelector :: "ComplexSelector \<Rightarrow> Extender \<Rightarrow> ComplexSelectorObj \<times> Extender" where
  "new_ComplexSelector c s =
     (ComplexSelectorObj (next_addr s) c, s\<lparr>next_addr := Suc (next_addr s)\<rparr>)"

text \<open>
  The constructor \<^verbatim>\<open>Extension(extender)\<close> (extension.hpp is not among the sources):
  a one-off extension without target and media context, of specificity 0, optional
  and not original; the callers set the other members as the code shows.
\<close>

definition Extension_new :: "ComplexSelectorObj \<Rightarrow> Extension" where
  "Extension_new e = Extension e None 0 True False None"

text \<open>\<^verbatim>\<open>Extension::withExtender\<close> (extension.cpp).\<close>

definition withExtender :: "Extension \<Rightarrow> ComplexSelectorObj \<Rightarrow> Extension" where
  "withExtender this newExtender =
     Extension newExtender (target this) (specificity this) (isOptional this) False None"

text \<open>\<^verbatim>\<open>wrapInComplex\<close> of a simple selector and of a compound selector.\<close>

definition wrapInComplex :: "SimpleSelector list \<Rightarrow> ComplexSelector" where
  "wrapInComplex compound = ComplexSelector [CompoundSelector compound] False"

definition extensionForSimple :: "AstOps \<Rightarrow> SimpleSelector \<Rightarrow> Extender \<Rightarrow> Extension \<times> Extender" where
  "extensionForSimple A simple s =
     (let (obj, s') = new_ComplexSelector (wrapInComplex [simple]) s
      in (Extension obj None (maxSourceSpecificity A (sourceSpecificity s) simple) True True None,
          s'))"

definition extensionForCompound :: "SimpleSelector list \<Rightarrow> Extender \<Rightarrow> Extension \<times> Extender" where
  "extensionForCompound simples s =
     (let (obj, s') = new_ComplexSelector (wrapInComplex simples) s
      in (Extension obj None 0 True True None, s'))"

section \<open>The extender: extendCompound (lines 641-869)\<close>

text \<open>\<^verbatim>\<open>targetsUsed->insert(simple)\<close>, for a set that is not null.\<close>

definition targets_insert :: "AstOps \<Rightarrow> SimpleSelector \<Rightarrow> ExtSmplSelSet option \<Rightarrow> ExtSmplSelSet option" where
  "targets_insert A simple targetsUsed =
     (case targetsUsed of
        None \<Rightarrow> None
      | Some used \<Rightarrow>
          Some (if list_ex (\<lambda>u. equalSimple A u simple) used then used else used @ [simple]))"

text \<open>
  \<^verbatim>\<open>extendWithoutPseudo(simple, extensions, targetsUsed)\<close>: the result, the set of
  targets used, and the state (a new selector is made for the simple itself).
\<close>

definition extendWithoutPseudo ::
  "AstOps \<Rightarrow> SimpleSelector \<Rightarrow> ExtSelExtMap \<Rightarrow> ExtSmplSelSet option \<Rightarrow> Extender
     \<Rightarrow> (Extension list \<times> ExtSmplSelSet option) \<times> Extender" where
  "extendWithoutPseudo A simple exts targetsUsed s =
     (case find_entry (equalSimple A) exts simple of
        None \<Rightarrow> (([], targetsUsed), s)
      | Some extenders \<Rightarrow>
          if mode s = REPLACE then ((map snd extenders, targets_insert A simple targetsUsed), s)
          else
            (let (self, s') = extensionForSimple A simple s
             in ((self # map snd extenders, targets_insert A simple targetsUsed), s')))"

text \<open>
  The type of \<^verbatim>\<open>extendPseudo\<close>, which \<^verbatim>\<open>extendSimple\<close> calls for a pseudo selector
  with a selector list. It extends that list with \<^verbatim>\<open>extendList\<close> and so calls back
  into the functions below; here it is a parameter \<open>P\<close>.
\<close>

type_synonym ExtendPseudoFn =
  "SimpleSelector \<Rightarrow> ExtSelExtMap \<Rightarrow> CssMediaRule option \<Rightarrow> Extender \<Rightarrow> SimpleSelector list Outcome"

text \<open>The loop of \<^verbatim>\<open>extendSimple\<close> over the pseudo selectors \<open>extended\<close>.\<close>

fun extendSimple_merge ::
  "AstOps \<Rightarrow> ExtSelExtMap \<Rightarrow> SimpleSelector list \<Rightarrow> Extension list list \<Rightarrow> ExtSmplSelSet option
     \<Rightarrow> Extender \<Rightarrow> (Extension list list \<times> ExtSmplSelSet option) \<times> Extender" where
  "extendSimple_merge A exts [] merged targetsUsed s = ((merged, targetsUsed), s)"
| "extendSimple_merge A exts (extend' # rest) merged targetsUsed s =
     (let ((result, used), s1) = extendWithoutPseudo A extend' exts targetsUsed s;
          (result', s2) =
             (if result = [] then (let (e, s') = extensionForSimple A extend' s1 in ([e], s'))
              else (result, s1))
      in extendSimple_merge A exts rest (merged @ [result']) used s2)"

definition extendSimple ::
  "AstOps \<Rightarrow> ExtendPseudoFn \<Rightarrow> SimpleSelector \<Rightarrow> ExtSelExtMap \<Rightarrow> CssMediaRule option
     \<Rightarrow> ExtSmplSelSet option \<Rightarrow> Extender \<Rightarrow> (Extension list list \<times> ExtSmplSelSet option) Outcome" where
  "extendSimple A P simple exts mediaQueryContext targetsUsed s =
     (let without = (\<lambda>s0.
            let ((result, used), s1) = extendWithoutPseudo A simple exts targetsUsed s0
            in if result = [] then Returns ([], used) s1 else Returns ([result], used) s1)
      in case simple of
           Pseudo_Selector n nn a (Some sel) \<Rightarrow>
             (case P simple exts mediaQueryContext s of
                Returns extended s' \<Rightarrow>
                  if extended \<noteq> [] then
                    (let ((merged, used), s'') = extendSimple_merge A exts extended [] targetsUsed s'
                     in Returns (merged, used) s'')
                  else without s'
              | Throws e s' \<Rightarrow> Throws e s'
              | Diverges \<Rightarrow> Diverges)
         | _ \<Rightarrow> without s)"

text \<open>
  Modelled from the spec: \<^verbatim>\<open>permutate\<close> (permutate.hpp is not among the sources)
  computes "the Cartesian product over the option sets": all paths that take one
  option of every list, the first path taking the first option of each, and no path
  at all for no list.
\<close>

fun paths :: "'a list list \<Rightarrow> 'a list list" where
  "paths [] = [[]]"
| "paths (options # rest) = concat (map (\<lambda>path. map (\<lambda>x. x # path) options) (paths rest))"

definition permutate :: "'a list list \<Rightarrow> 'a list list" where
  "permutate options = (if options = [] then [] else paths options)"

text \<open>
  The first loop of \<^verbatim>\<open>extendCompound\<close>, over the simple selectors of the compound
  from the index \<open>i\<close> on (\<open>rest\<close> are those selectors): it builds \<open>options\<close> and the
  set of targets used.
\<close>

fun extendCompound_options ::
  "AstOps \<Rightarrow> ExtendPseudoFn \<Rightarrow> ExtSelExtMap \<Rightarrow> CssMediaRule option \<Rightarrow> SimpleSelector list
     \<Rightarrow> nat \<Rightarrow> SimpleSelector list \<Rightarrow> Extension list list \<Rightarrow> ExtSmplSelSet option \<Rightarrow> Extender
     \<Rightarrow> (Extension list list \<times> ExtSmplSelSet option) Outcome" where
  "extendCompound_options A P exts mctx compound i [] options targetsUsed s =
     Returns (options, targetsUsed) s"
| "extendCompound_options A P exts mctx compound i (simple # rest) options targetsUsed s =
     (case extendSimple A P simple exts mctx targetsUsed s of
        Returns (extended, used) s1 \<Rightarrow>
          if extended = [] then
            (if options \<noteq> [] then
               (let (e, s2) = extensionForSimple A simple s1
                in extendCompound_options A P exts mctx compound (i + 1) rest
                     (options @ [[e]]) used s2)
             else extendCompound_options A P exts mctx compound (i + 1) rest options used s1)
          else
            (if options = [] \<and> i \<noteq> 0 then
               (let (e, s2) = extensionForCompound (take i compound) s1
                in extendCompound_options A P exts mctx compound (i + 1) rest
                     ([[e]] @ extended) used s2)
             else extendCompound_options A P exts mctx compound (i + 1) rest
                    (options @ extended) used s1)
      | Throws e s1 \<Rightarrow> Throws e s1
      | Diverges \<Rightarrow> Diverges)"

text \<open>The branch for a single option: every extension is checked, its extender returned.\<close>

fun extendCompound_single ::
  "AstOps \<Rightarrow> CssMediaRule option \<Rightarrow> Extension list \<Rightarrow> ComplexSelectorObj list \<Rightarrow> Extender
     \<Rightarrow> ComplexSelectorObj list Outcome" where
  "extendCompound_single A mctx [] result s = Returns result s"
| "extendCompound_single A mctx (e # exts) result s =
     (case assertCompatibleMediaContext (equalMedia A) e mctx of
        Some err \<Rightarrow> Throws err s
      | None \<Rightarrow> extendCompound_single A mctx exts (result @ [extender e]) s)"

text \<open>
  The last compound selector of a complex selector (\<^verbatim>\<open>Cast<CompoundSelector>(sel->last())\<close>),
  if its last component is one; a complex selector is not empty.
\<close>

definition last_compound :: "ComplexSelector \<Rightarrow> SimpleSelector list option" where
  "last_compound sel =
     (case rev (elements sel) of
        CompoundSelector simples # before \<Rightarrow> Some simples
      | _ \<Rightarrow> None)"

text \<open>The first path: the compounds of the extenders, concatenated.\<close>

definition merged_first :: "Extension list \<Rightarrow> SimpleSelector list" where
  "merged_first path =
     concat (map (\<lambda>e. case last_compound (deref (extender e)) of
                          Some simples \<Rightarrow> simples | None \<Rightarrow> []) path)"

text \<open>
  The other paths: the last simple selector of every original extender
  (\<open>originals\<close>), and the components of the extenders that are not original
  (\<open>toUnify\<close>).
\<close>

definition path_originals :: "Extension list \<Rightarrow> SimpleSelector list" where
  "path_originals path =
     concat (map (\<lambda>e. if isOriginal e then
                          (case last_compound (deref (extender e)) of
                             Some simples \<Rightarrow> (if simples = [] then [] else [last simples])
                           | None \<Rightarrow> [])
                        else []) path)"

definition path_toUnify :: "Extension list \<Rightarrow> SelectorComponent list list" where
  "path_toUnify path =
     concat (map (\<lambda>e. if isOriginal e then [] else [elements (deref (extender e))]) path)"

text \<open>The loop that checks the media context of every extension of a path.\<close>

fun assert_path :: "AstOps \<Rightarrow> CssMediaRule option \<Rightarrow> Extension list \<Rightarrow> bool \<Rightarrow> Exception + bool" where
  "assert_path A mctx [] lineBreak = Inr lineBreak"
| "assert_path A mctx (e # path) lineBreak =
     (case assertCompatibleMediaContext (equalMedia A) e mctx of
        Some err \<Rightarrow> Inl err
      | None \<Rightarrow> assert_path A mctx path (lineBreak \<or> hasPreLineFeed (deref (extender e))))"

text \<open>The loop that makes a complex selector of every list of components.\<close>

fun new_selectors ::
  "bool \<Rightarrow> SelectorComponent list list \<Rightarrow> ComplexSelectorObj list \<Rightarrow> Extender
     \<Rightarrow> ComplexSelectorObj list \<times> Extender" where
  "new_selectors lineBreak [] unifiedPaths s = (unifiedPaths, s)"
| "new_selectors lineBreak (components # rest) unifiedPaths s =
     (let (sel, s') = new_ComplexSelector (ComplexSelector components lineBreak) s
      in new_selectors lineBreak rest (unifiedPaths @ [sel]) s')"

text \<open>
  The loop over the paths; \<open>U\<close> is \<^verbatim>\<open>unifyComplex\<close>, whose code is not among the
  sources.
\<close>

fun extendCompound_paths ::
  "AstOps \<Rightarrow> (SelectorComponent list list \<Rightarrow> SelectorComponent list list) \<Rightarrow> CssMediaRule option
     \<Rightarrow> Extension list list \<Rightarrow> bool \<Rightarrow> ComplexSelectorObj list \<Rightarrow> Extender
     \<Rightarrow> ComplexSelectorObj list Outcome" where
  "extendCompound_paths A U mctx [] first unifiedPaths s = Returns unifiedPaths s"
| "extendCompound_paths A U mctx (path # prePaths) first unifiedPaths s =
     (let complexes =
            (if first then [[CompoundSelector (merged_first path)]]
             else U ((if path_originals path \<noteq> []
                      then [[CompoundSelector (path_originals path)]] else [])
                     @ path_toUnify path))
      in if complexes = [] then Returns [] s
         else
           (case assert_path A mctx path False of
              Inl err \<Rightarrow> Throws err s
            | Inr lineBreak \<Rightarrow>
                (let (unified, s') = new_selectors lineBreak complexes unifiedPaths s
                 in extendCompound_paths A U mctx prePaths False unified s')))"

text \<open>
  \<^verbatim>\<open>extendCompound(compound, extensions, mediaQueryContext, inOriginal)\<close>. The set
  \<open>targetsUsed\<close> is null (\<open>None\<close>) unless the mode is not \<open>NORMAL\<close> and the map has
  more than one key.
\<close>

definition extendCompound ::
  "AstOps \<Rightarrow> ExtendPseudoFn \<Rightarrow> (SelectorComponent list list \<Rightarrow> SelectorComponent list list)
     \<Rightarrow> SimpleSelector list \<Rightarrow> ExtSelExtMap \<Rightarrow> CssMediaRule option \<Rightarrow> bool \<Rightarrow> Extender
     \<Rightarrow> ComplexSelectorObj list Outcome" where
  "extendCompound A P U compound exts mctx inOriginal s =
     (let targetsUsed = (if mode s \<noteq> NORMAL \<and> length exts > 1 then Some [] else None)
      in case extendCompound_options A P exts mctx compound 0 compound [] targetsUsed s of
           Returns (options, used) s1 \<Rightarrow>
             if options = [] then Returns [] s1
             else if (case used of
                        None \<Rightarrow> False
                      | Some u \<Rightarrow> length u \<noteq> length exts \<and> u \<noteq> [])
             then Returns [] s1
             else if length options = 1 then extendCompound_single A mctx (options ! 0) [] s1
             else extendCompound_paths A U mctx (permutate options) (mode s1 \<noteq> REPLACE) [] s1
         | Throws e s1 \<Rightarrow> Throws e s1
         | Diverges \<Rightarrow> Diverges)"

subsection \<open>For the statement and the examples of extendCompound\<close>

text \<open>A simple selector without a nested selector list: \<^verbatim>\<open>extendSimple\<close> does not
  call \<^verbatim>\<open>extendPseudo\<close> for it.\<close>

fun plain :: "SimpleSelector \<Rightarrow> bool" where
  "plain (Pseudo_Selector n nn a (Some sel)) = False"
| "plain x = True"

text \<open>
  Comparing with a plain simple selector is comparing the syntax: names, and for a
  pseudo selector its argument.
\<close>

definition plain_equality :: "AstOps \<Rightarrow> bool" where
  "plain_equality A \<longleftrightarrow> (\<forall>k x. plain x \<longrightarrow> equalSimple A k x = (k = x))"

text \<open>
  An extender in the state of \<^verbatim>\<open>extendOrReplace\<close>: empty maps, the given mode, the
  given originals, new objects from the address 100 on.
\<close>

definition one_off :: "ExtendMode \<Rightarrow> nat set \<Rightarrow> Extender" where
  "one_off m orig =
     \<lparr> mode = m, selectors = [], extensions = [], extensionsByExtender = [],
       mediaContexts = [], sourceSpecificity = [], originals = orig,
       lists = (\<lambda>a. []), next_addr = 100 \<rparr>"

text \<open>
  Modelled from the spec: \<^verbatim>\<open>unifyComplex\<close> on complex selectors that are one
  compound of class selectors each, where unifying is "concatenate simples while
  de-duplicating equal simples" (section 4.D). Only the examples use it.
\<close>

definition unify_classes :: "SelectorComponent list list \<Rightarrow> SelectorComponent list list" where
  "unify_classes toUnify =
     [[CompoundSelector
         (remdups (concat (map (\<lambda>components. classes_of (ComplexSelector components False))
                        toUnify)))]]"

text \<open>
  What \<^verbatim>\<open>extendPseudo\<close> returns for \<^verbatim>\<open>:not(.a.b)\<close> when the targets \<^verbatim>\<open>.a\<close> and
  \<^verbatim>\<open>.b\<close> are extended by \<^verbatim>\<open>.x\<close> (the call
  \<^verbatim>\<open>selector-extend(":not(.a.b)", ".a.b", ".x")\<close>): the nested list becomes
  \<^verbatim>\<open>.a.b, .x\<close>, and a \<^verbatim>\<open>:not\<close> of one selector is broken up, into
  \<^verbatim>\<open>:not(.a.b)\<close> and \<^verbatim>\<open>:not(.x)\<close>.
\<close>

definition not_of :: "string list \<Rightarrow> SimpleSelector" where
  "not_of names =
     Pseudo_Selector ''not'' ''not'' None
       (Some [ComplexSelector [CompoundSelector (map Class_Selector names)] False])"

definition extendPseudo_not_example :: ExtendPseudoFn where
  "extendPseudo_not_example pseudo exts mctx s = Returns [not_of [''a'', ''b''], not_of [''x'']] s"

definition extenders_x :: ExtSelExtMapEntry where
  "extenders_x = [(classes 5 [''x''], Extension_new (classes 5 [''x'']))]"

text \<open>The targets \<^verbatim>\<open>.a.b\<close>, each extended by \<^verbatim>\<open>.x\<close>.\<close>

definition targets_ab :: ExtSelExtMap where
  "targets_ab = [(Class_Selector ''a'', extenders_x), (Class_Selector ''b'', extenders_x)]"

text \<open>
  The invariant of \<open>targetsUsed\<close>: no target is in it twice, each is a key of the
  map and one of the simple selectors \<open>xs\<close>.
\<close>

definition used_ok :: "ExtSelExtMap \<Rightarrow> SimpleSelector list \<Rightarrow> ExtSmplSelSet option \<Rightarrow> bool" where
  "used_ok exts xs targetsUsed \<longleftrightarrow>
     (case targetsUsed of
        None \<Rightarrow> True
      | Some u \<Rightarrow> distinct u \<and> set u \<subseteq> set (map fst exts) \<inter> set xs)"

section \<open>The extender: extendList (lines 455-493)\<close>

text \<open>
  The type of \<^verbatim>\<open>extendComplex\<close>. It calls \<^verbatim>\<open>extendCompound\<close>, \<^verbatim>\<open>weave\<close> (whose code is
  not among the sources) and, through the pseudo selectors, \<^verbatim>\<open>extendList\<close> again;
  for \<^verbatim>\<open>extendList\<close> and for \<^verbatim>\<open>addExtension\<close> it is a parameter \<open>X\<close>. It may
  insert into \<open>originals\<close>, make new selectors, throw, or not return.
\<close>

type_synonym ExtendComplexFn =
  "ComplexSelectorObj \<Rightarrow> ExtSelExtMap \<Rightarrow> CssMediaRule option \<Rightarrow> Extender
     \<Rightarrow> ComplexSelectorObj list Outcome"

text \<open>
  The loop of \<^verbatim>\<open>extendList\<close> over the selectors of the list from the index \<open>i\<close> on
  (\<open>rest\<close> are those selectors, \<open>elems\<close> all selectors of the list).
\<close>

fun extendList_loop ::
  "ExtendComplexFn \<Rightarrow> ExtSelExtMap \<Rightarrow> CssMediaRule option \<Rightarrow> ComplexSelectorObj list \<Rightarrow> nat
     \<Rightarrow> ComplexSelectorObj list \<Rightarrow> ComplexSelectorObj list \<Rightarrow> Extender
     \<Rightarrow> ComplexSelectorObj list Outcome" where
  "extendList_loop X exts mctx elems i [] extended s = Returns extended s"
| "extendList_loop X exts mctx elems i (complex # rest) extended s =
     (case X complex exts mctx s of
        Returns result s1 \<Rightarrow>
          if result = [] then
            extendList_loop X exts mctx elems (i + 1) rest
              (if extended \<noteq> [] then extended @ [complex] else extended) s1
          else
            extendList_loop X exts mctx elems (i + 1) rest
              ((if extended = [] then take i elems else extended) @ result) s1
      | Throws e s1 \<Rightarrow> Throws e s1
      | Diverges \<Rightarrow> Diverges)"

text \<open>
  \<^verbatim>\<open>extendList(list, extensions, mediaQueryContext)\<close>: \<open>list\<close> is the address of the
  selector list, the value returned the address of a selector list: \<open>list\<close> itself,
  or the new list \<open>rv\<close> with the trimmed selectors. The elements of the list are
  read once, since nothing in the loop writes to a selector list. \<open>fuel\<close> bounds
  the restarts of \<^verbatim>\<open>trim\<close>.
\<close>

definition extendList ::
  "nat \<Rightarrow> AstOps \<Rightarrow> ExtendComplexFn \<Rightarrow> nat \<Rightarrow> ExtSelExtMap \<Rightarrow> CssMediaRule option \<Rightarrow> Extender
     \<Rightarrow> nat Outcome" where
  "extendList fuel A X list exts mctx s =
     (case extendList_loop X exts mctx (lists s list) 0 (lists s list) [] s of
        Returns extended s1 \<Rightarrow>
          if extended = [] then Returns list s1
          else
            (case trim fuel A (sourceSpecificity s1) extended (originals s1) of
               None \<Rightarrow> Diverges
             | Some trimmed \<Rightarrow>
                 Returns (next_addr s1)
                   (s1\<lparr>lists := (lists s1)(next_addr s1 := trimmed),
                       next_addr := Suc (next_addr s1)\<rparr>))
      | Throws e s1 \<Rightarrow> Throws e s1
      | Diverges \<Rightarrow> Diverges)"

subsection \<open>For the statement about extendList\<close>

text \<open>
  The calls of \<^verbatim>\<open>extendComplex\<close> that the loop of \<^verbatim>\<open>extendList\<close> makes for the
  selectors \<open>rest\<close>, each in the state that the call before it left: \<open>Some s'\<close> when
  every one of them returns the empty result, \<open>s'\<close> being the state after the last.
\<close>

fun extendList_calls ::
  "ExtendComplexFn \<Rightarrow> ExtSelExtMap \<Rightarrow> CssMediaRule option \<Rightarrow> ComplexSelectorObj list \<Rightarrow> Extender
     \<Rightarrow> Extender option" where
  "extendList_calls X exts mctx [] s = Some s"
| "extendList_calls X exts mctx (complex # rest) s =
     (case X complex exts mctx s of
        Returns result s1 \<Rightarrow> if result = [] then extendList_calls X exts mctx rest s1 else None
      | Throws e s1 \<Rightarrow> None
      | Diverges \<Rightarrow> None)"

text \<open>
  The selector lists that exist in \<open>s\<close> (their addresses are below \<open>next_addr s\<close>) have
  the same elements in \<open>s'\<close>; an \<^verbatim>\<open>extendComplex\<close> that writes to no selector list
  that exists (it makes new ones for the pseudo selectors).
\<close>

definition keeps_lists :: "Extender \<Rightarrow> Extender \<Rightarrow> bool" where
  "keeps_lists s s' \<longleftrightarrow>
     next_addr s \<le> next_addr s' \<and> (\<forall>a. a < next_addr s \<longrightarrow> lists s' a = lists s a)"

definition writes_no_list :: "ExtendComplexFn \<Rightarrow> bool" where
  "writes_no_list X \<longleftrightarrow>
     (\<forall>complex exts mctx s result s'.
        X complex exts mctx s = Returns result s' \<longrightarrow> keeps_lists s s')"

section \<open>The extender: addExtension (lines 188-450)\<close>

text \<open>
  The simple selectors that \<^verbatim>\<open>registerSelector\<close> visits in a complex selector, in
  the order of its loops: every simple selector of every compound, and after a
  pseudo selector those of its selector list.
\<close>

fun registered_simple :: "SimpleSelector \<Rightarrow> SimpleSelector list"
  and registered_component :: "SelectorComponent \<Rightarrow> SimpleSelector list"
  and registered_complex :: "ComplexSelector \<Rightarrow> SimpleSelector list" where
  "registered_simple (Pseudo_Selector n nn a (Some sel)) =
     Pseudo_Selector n nn a (Some sel) # concat (map registered_complex sel)"
| "registered_simple (Pseudo_Selector n nn a None) = [Pseudo_Selector n nn a None]"
| "registered_simple (Type_Selector n) = [Type_Selector n]"
| "registered_simple (Class_Selector n) = [Class_Selector n]"
| "registered_simple (Id_Selector n) = [Id_Selector n]"
| "registered_simple (Placeholder_Selector n) = [Placeholder_Selector n]"
| "registered_simple (Attribute_Selector n op v) = [Attribute_Selector n op v]"
| "registered_component (CompoundSelector compound) = concat (map registered_simple compound)"
| "registered_component (SelectorCombinator c) = []"
| "registered_complex (ComplexSelector components lf) =
     concat (map registered_component components)"

text \<open>\<^verbatim>\<open>selectors[simple].insert(rule)\<close>.\<close>

definition add_rule ::
  "AstOps \<Rightarrow> nat \<Rightarrow> (SimpleSelector \<times> nat list) list \<Rightarrow> SimpleSelector
     \<Rightarrow> (SimpleSelector \<times> nat list) list" where
  "add_rule A rule m simple =
     (let rules = entry_or_default (equalSimple A) [] m simple
      in insert_entry (equalSimple A) simple
           (if rule \<in> set rules then rules else rules @ [rule]) m)"

definition registerSelector :: "AstOps \<Rightarrow> nat \<Rightarrow> nat \<Rightarrow> Extender \<Rightarrow> Extender" where
  "registerSelector A list rule s =
     s\<lparr>selectors :=
          foldl (add_rule A rule) (selectors s)
            (concat (map (\<lambda>complex. registered_complex (deref complex)) (lists s list)))\<rparr>"

text \<open>\<^verbatim>\<open>mergeExtension(lhs, rhs)\<close>.\<close>

definition mergeExtension :: "Extension \<Rightarrow> Extension \<Rightarrow> Extension" where
  "mergeExtension lhs rhs =
     (if isOptional rhs \<and> mediaContext rhs = None then lhs
      else if isOptional lhs \<and> mediaContext lhs = None then rhs
      else Extension (extender lhs) (target lhs) (specificity lhs) True False (mediaContext lhs))"

text \<open>\<^verbatim>\<open>mapCopyExts(dest, source)\<close>.\<close>

definition mapCopyExts :: "AstOps \<Rightarrow> ExtSelExtMap \<Rightarrow> ExtSelExtMap \<Rightarrow> ExtSelExtMap" where
  "mapCopyExts A dest source =
     foldl (\<lambda>dest (key, inner).
              if \<not> has_key (equalSimple A) dest key then dest @ [(key, inner)]
              else foldl (\<lambda>dest (it2, ext).
                            insert_entry (equalSimple A) key
                              (insert_entry (complexKey A) it2 ext
                                 (entry_or_default (equalSimple A) [] dest key)) dest)
                     dest inner)
       dest source"

text \<open>
  \<^verbatim>\<open>extensionsByExtender[simple].push_back(state)\<close> for every simple selector of the
  compound selectors of \<open>complex\<close>.
\<close>

definition compound_simples :: "ComplexSelector \<Rightarrow> SimpleSelector list" where
  "compound_simples complex =
     concat (map (\<lambda>component. case component of
                                  CompoundSelector compound \<Rightarrow> compound
                                | SelectorCombinator c \<Rightarrow> []) (elements complex))"

definition push_extension ::
  "AstOps \<Rightarrow> Extension \<Rightarrow> (SimpleSelector \<times> Extension list) list \<Rightarrow> SimpleSelector
     \<Rightarrow> (SimpleSelector \<times> Extension list) list" where
  "push_extension A state m simple =
     insert_entry (equalSimple A) simple
       (entry_or_default (equalSimple A) [] m simple @ [state]) m"

text \<open>
  The inner loop of \<^verbatim>\<open>extendExistingExtensions\<close> over the selectors that
  \<^verbatim>\<open>extendComplex\<close> returned for \<open>extension\<close>, whose target is \<open>tgt\<close>. The variable
  \<open>first\<close> starts as \<open>false\<close> in the source.
\<close>

fun extendExisting_inner ::
  "AstOps \<Rightarrow> Extension \<Rightarrow> SimpleSelector \<Rightarrow> ExtSelExtMap \<Rightarrow> bool \<Rightarrow> bool
     \<Rightarrow> ComplexSelectorObj list \<Rightarrow> ExtSelExtMap \<Rightarrow> Extender \<Rightarrow> ExtSelExtMap \<times> Extender" where
  "extendExisting_inner A extension tgt newExtensions containsExtension first []
     additionalExtensions s = (additionalExtensions, s)"
| "extendExisting_inner A extension tgt newExtensions containsExtension first (complex # rest)
     additionalExtensions s =
     (if containsExtension \<and> first then
        extendExisting_inner A extension tgt newExtensions containsExtension False rest
          additionalExtensions s
      else
        (let with = withExtender extension complex;
             sources = entry_or_default (equalSimple A) [] (extensions s) tgt
         in if has_key (complexKey A) sources complex then
              extendExisting_inner A extension tgt newExtensions containsExtension first rest
                additionalExtensions
                (s\<lparr>extensions :=
                     insert_entry (equalSimple A) tgt
                       (insert_entry (complexKey A) complex
                          (mergeExtension
                             (the (find_entry (complexKey A) sources complex)) with)
                          sources)
                       (extensions s)\<rparr>)
            else
              extendExisting_inner A extension tgt newExtensions containsExtension first rest
                (if has_key (equalSimple A) newExtensions tgt then
                   insert_entry (equalSimple A) tgt
                     (insert_entry (complexKey A) complex with
                        (entry_or_default (equalSimple A) [] additionalExtensions tgt))
                     additionalExtensions
                 else additionalExtensions)
                (s\<lparr>extensions :=
                     insert_entry (equalSimple A) tgt
                       (insert_entry (complexKey A) complex with sources) (extensions s),
                   extensionsByExtender :=
                     foldl (push_extension A with) (extensionsByExtender s)
                       (compound_simples (deref complex))\<rparr>)))"

text \<open>
  \<^verbatim>\<open>extendExistingExtensions(oldExtensions, newExtensions)\<close>, the loop over the old
  extensions. An extension without a target makes \<^verbatim>\<open>extensions[extension.target]\<close>
  undefined: the function does not return then.
\<close>

fun extendExistingExtensions ::
  "AstOps \<Rightarrow> ExtendComplexFn \<Rightarrow> Extension list \<Rightarrow> ExtSelExtMap \<Rightarrow> ExtSelExtMap \<Rightarrow> Extender
     \<Rightarrow> ExtSelExtMap Outcome" where
  "extendExistingExtensions A X [] newExtensions additionalExtensions s =
     Returns additionalExtensions s"
| "extendExistingExtensions A X (extension # oldExtensions) newExtensions additionalExtensions s =
     (case target extension of
        None \<Rightarrow> Diverges
      | Some tgt \<Rightarrow>
          (let s0 = s\<lparr>extensions := touch_entry (equalSimple A) [] tgt (extensions s)\<rparr>
           in case X (extender extension) newExtensions (mediaContext extension) s0 of
                Returns sels s1 \<Rightarrow>
                  if sels = [] then
                    extendExistingExtensions A X oldExtensions newExtensions additionalExtensions s1
                  else
                    (let containsExtension =
                           equalComplex A (deref (hd sels)) (deref (extender extension));
                         (additional, s2) =
                           extendExisting_inner A extension tgt newExtensions containsExtension
                             False sels additionalExtensions s1;
                         s3 = (if \<not> containsExtension then
                                 s2\<lparr>extensions :=
                                      insert_entry (equalSimple A) tgt
                                        (erase_entry (complexKey A) (extender extension)
                                           (entry_or_default (equalSimple A) [] (extensions s2) tgt))
                                        (extensions s2)\<rparr>
                               else s2)
                     in extendExistingExtensions A X oldExtensions newExtensions additional s3)
              | Throws e s1 \<Rightarrow> Throws e s1
              | Diverges \<Rightarrow> Diverges))"

text \<open>
  \<^verbatim>\<open>extendExistingStyleRules(rules, newExtensions)\<close>, the loop over the addresses of
  the rules' selector lists.
\<close>

fun extendExistingStyleRules ::
  "nat \<Rightarrow> AstOps \<Rightarrow> ExtendComplexFn \<Rightarrow> nat list \<Rightarrow> ExtSelExtMap \<Rightarrow> Extender \<Rightarrow> unit Outcome" where
  "extendExistingStyleRules fuel A X [] newExtensions s = Returns () s"
| "extendExistingStyleRules fuel A X (rule # rules) newExtensions s =
     (let oldValue = lists s rule;
          mediaContext = find_entry (=) (mediaContexts s) rule
      in case extendList fuel A X rule newExtensions mediaContext s of
           Returns ext s1 \<Rightarrow>
             if equalList A (map deref oldValue) (map deref (lists s1 ext)) then
               extendExistingStyleRules fuel A X rules newExtensions s1
             else
               extendExistingStyleRules fuel A X rules newExtensions
                 (registerSelector A rule rule (s1\<lparr>lists := (lists s1)(rule := lists s1 ext)\<rparr>))
         | Throws e s1 \<Rightarrow> Throws e s1
         | Diverges \<Rightarrow> Diverges)"

text \<open>
  The loop of \<^verbatim>\<open>addExtension\<close> over the complex selectors of the extender list;
  \<open>sources\<close> is the entry \<open>extensions[target]\<close>, read and written in the state.
\<close>

definition source_specificity_add ::
  "AstOps \<Rightarrow> ComplexSelectorObj \<Rightarrow> (SimpleSelector \<times> nat) list \<Rightarrow> SimpleSelector
     \<Rightarrow> (SimpleSelector \<times> nat) list" where
  "source_specificity_add A complex m simple =
     (if has_key (equalSimple A) m simple then m
      else m @ [(simple, maxSpecificity A (deref complex))])"

fun addExtension_loop ::
  "AstOps \<Rightarrow> SimpleSelector \<Rightarrow> bool \<Rightarrow> CssMediaRule option \<Rightarrow> bool \<Rightarrow> bool
     \<Rightarrow> ComplexSelectorObj list \<Rightarrow> ExtSelExtMapEntry \<Rightarrow> Extender \<Rightarrow> ExtSelExtMapEntry \<times> Extender" where
  "addExtension_loop A tgt optional mctx hasRule hasExistingExtensions [] newExtensions s =
     (newExtensions, s)"
| "addExtension_loop A tgt optional mctx hasRule hasExistingExtensions (complex # rest)
     newExtensions s =
     (let state = Extension complex (Some tgt) 0 optional False mctx;
          sources = entry_or_default (equalSimple A) [] (extensions s) tgt
      in if has_key (complexKey A) sources complex then
           addExtension_loop A tgt optional mctx hasRule hasExistingExtensions rest newExtensions s
         else
           addExtension_loop A tgt optional mctx hasRule hasExistingExtensions rest
             (if hasRule \<or> hasExistingExtensions
              then insert_entry (complexKey A) complex state newExtensions else newExtensions)
             (s\<lparr>extensions :=
                  insert_entry (equalSimple A) tgt
                    (insert_entry (complexKey A) complex state sources) (extensions s),
                extensionsByExtender :=
                  foldl (push_extension A state) (extensionsByExtender s)
                    (compound_simples (deref complex)),
                sourceSpecificity :=
                  foldl (source_specificity_add A complex) (sourceSpecificity s)
                    (compound_simples (deref complex))\<rparr>))"

text \<open>
  \<^verbatim>\<open>addExtension(extender, target, extend, mediaQueryContext)\<close>: \<open>extender'\<close> are the
  complex selectors of the extender list, \<open>optional\<close> is \<^verbatim>\<open>extend->isOptional()\<close>.
\<close>

definition addExtension ::
  "nat \<Rightarrow> AstOps \<Rightarrow> ExtendComplexFn \<Rightarrow> ComplexSelectorObj list \<Rightarrow> SimpleSelector \<Rightarrow> bool
     \<Rightarrow> CssMediaRule option \<Rightarrow> Extender \<Rightarrow> unit Outcome" where
  "addExtension fuel A X extender' tgt optional mediaQueryContext s =
     (let hasRule = has_key (equalSimple A) (selectors s) tgt;
          hasExistingExtensions = has_key (equalSimple A) (extensionsByExtender s) tgt;
          s0 = s\<lparr>extensions := touch_entry (equalSimple A) [] tgt (extensions s)\<rparr>;
          (newExtensions, s1) =
             addExtension_loop A tgt optional mediaQueryContext hasRule hasExistingExtensions
               extender' [] s0
      in if newExtensions = [] then Returns () s1
         else
           (let newExtensionsByTarget = [(tgt, newExtensions)];
                existingExtensions =
                  entry_or_default (equalSimple A) [] (extensionsByExtender s1) tgt;
                rules = (\<lambda>s. entry_or_default (equalSimple A) [] (selectors s) tgt)
            in case (if hasExistingExtensions \<and> existingExtensions \<noteq> [] then
                       (case extendExistingExtensions A X existingExtensions newExtensionsByTarget
                               [] s1 of
                          Returns additionalExtensions s2 \<Rightarrow>
                            Returns (if additionalExtensions \<noteq> []
                                     then mapCopyExts A newExtensionsByTarget additionalExtensions
                                     else newExtensionsByTarget) s2
                        | Throws e s2 \<Rightarrow> Throws e s2
                        | Diverges \<Rightarrow> Diverges)
                     else Returns newExtensionsByTarget s1) of
                 Returns byTarget s2 \<Rightarrow>
                   if hasRule then extendExistingStyleRules fuel A X (rules s2) byTarget s2
                   else Returns () s2
               | Throws e s2 \<Rightarrow> Throws e s2
               | Diverges \<Rightarrow> Diverges))"

subsection \<open>For the statements about addExtension\<close>

text \<open>\<open>complex\<close> is a key of \<^verbatim>\<open>extensions[target]\<close>.\<close>

definition present :: "AstOps \<Rightarrow> ExtSelExtMap \<Rightarrow> SimpleSelector \<Rightarrow> ComplexSelectorObj \<Rightarrow> bool" where
  "present A m tgt complex =
     (case find_entry (equalSimple A) m tgt of
        None \<Rightarrow> False
      | Some sources \<Rightarrow> has_key (complexKey A) sources complex)"

text \<open>
  Two states with the same mode and the same maps \<open>extensions\<close> and
  \<open>extensionsByExtender\<close>; an \<^verbatim>\<open>extendComplex\<close> that leaves them as they are whenever
  it returns (it makes selectors and adds to \<open>originals\<close>).
\<close>

definition same_maps :: "Extender \<Rightarrow> Extender \<Rightarrow> bool" where
  "same_maps s s' \<longleftrightarrow>
     mode s' = mode s \<and> extensions s' = extensions s
     \<and> extensionsByExtender s' = extensionsByExtender s"

definition writes_no_map :: "ExtendComplexFn \<Rightarrow> bool" where
  "writes_no_map X \<longleftrightarrow>
     (\<forall>complex exts mctx s result s'.
        X complex exts mctx s = Returns result s' \<longrightarrow> same_maps s s')"

text \<open>
  What \<^verbatim>\<open>extendComplex\<close> leaves alone: the mode, the two maps, and the selector
  lists that exist.
\<close>

definition frame :: "Extender \<Rightarrow> Extender \<Rightarrow> bool" where
  "frame s s' \<longleftrightarrow> same_maps s s' \<and> keeps_lists s s'"

text \<open>
  The run of \<^verbatim>\<open>extendExistingExtensions\<close> erases nothing: whenever \<^verbatim>\<open>extendComplex\<close>
  returns selectors for an extension, the first of them is equal to the extender
  of the extension (\<^verbatim>\<open>containsExtension\<close> is true). The function follows
  \<^verbatim>\<open>extendExistingExtensions\<close> call by call, in the same states.
\<close>

fun extendExisting_kept ::
  "AstOps \<Rightarrow> ExtendComplexFn \<Rightarrow> Extension list \<Rightarrow> ExtSelExtMap \<Rightarrow> ExtSelExtMap \<Rightarrow> Extender
     \<Rightarrow> bool" where
  "extendExisting_kept A X [] newExtensions additionalExtensions s = True"
| "extendExisting_kept A X (extension # oldExtensions) newExtensions additionalExtensions s =
     (case target extension of
        None \<Rightarrow> True
      | Some tgt \<Rightarrow>
          (let s0 = s\<lparr>extensions := touch_entry (equalSimple A) [] tgt (extensions s)\<rparr>
           in case X (extender extension) newExtensions (mediaContext extension) s0 of
                Returns sels s1 \<Rightarrow>
                  if sels = [] then
                    extendExisting_kept A X oldExtensions newExtensions additionalExtensions s1
                  else
                    equalComplex A (deref (hd sels)) (deref (extender extension))
                    \<and> (let (additional, s2) =
                             extendExisting_inner A extension tgt newExtensions True False sels
                               additionalExtensions s1
                       in extendExisting_kept A X oldExtensions newExtensions additional s2)
              | Throws e s1 \<Rightarrow> True
              | Diverges \<Rightarrow> True))"

text \<open>
  The call of \<^verbatim>\<open>addExtension\<close> erases nothing: it does not come to
  \<^verbatim>\<open>extendExistingExtensions\<close>, or the run of that erases nothing.
\<close>

definition addExtension_keeps ::
  "AstOps \<Rightarrow> ExtendComplexFn \<Rightarrow> ComplexSelectorObj list \<Rightarrow> SimpleSelector \<Rightarrow> bool
     \<Rightarrow> CssMediaRule option \<Rightarrow> Extender \<Rightarrow> bool" where
  "addExtension_keeps A X extender' tgt optional mediaQueryContext s =
     (let hasRule = has_key (equalSimple A) (selectors s) tgt;
          hasExistingExtensions = has_key (equalSimple A) (extensionsByExtender s) tgt;
          s0 = s\<lparr>extensions := touch_entry (equalSimple A) [] tgt (extensions s)\<rparr>;
          (newExtensions, s1) =
             addExtension_loop A tgt optional mediaQueryContext hasRule hasExistingExtensions
               extender' [] s0
      in newExtensions = [] \<or> \<not> hasExistingExtensions
         \<or> extendExisting_kept A X
              (entry_or_default (equalSimple A) [] (extensionsByExtender s1) tgt)
              [(tgt, newExtensions)] [] s1)"

text \<open>The number of extensions in \<open>extensionsByExtender\<close>, over all its keys.\<close>

definition count_entries :: "('k \<times> 'v list) list \<Rightarrow> nat" where
  "count_entries m = sum_list (map (\<lambda>(k, v). length v) m)"

section \<open>The extender: extendComplex and extendPseudo (lines 499-606 and 924-977)\<close>

text \<open>
  \<^verbatim>\<open>wrapInComplex\<close> of the components of a complex selector: a new complex selector
  for each.
\<close>

fun wrap_components ::
  "SelectorComponent list \<Rightarrow> ComplexSelectorObj list list \<Rightarrow> Extender
     \<Rightarrow> ComplexSelectorObj list list \<times> Extender" where
  "wrap_components [] wrapped s = (wrapped, s)"
| "wrap_components (component # rest) wrapped s =
     (let (w, s') = new_ComplexSelector (ComplexSelector [component] False) s
      in wrap_components rest (wrapped @ [[w]]) s')"

text \<open>
  The first loop of \<^verbatim>\<open>extendComplex\<close>, over the components of the complex selector
  from the index \<open>i\<close> on: it builds \<open>extendedNotExpanded\<close>.
\<close>

fun extendComplex_components ::
  "AstOps \<Rightarrow> ExtendPseudoFn \<Rightarrow> (SelectorComponent list list \<Rightarrow> SelectorComponent list list)
     \<Rightarrow> ExtSelExtMap \<Rightarrow> CssMediaRule option \<Rightarrow> bool \<Rightarrow> SelectorComponent list \<Rightarrow> nat
     \<Rightarrow> SelectorComponent list \<Rightarrow> ComplexSelectorObj list list \<Rightarrow> Extender
     \<Rightarrow> ComplexSelectorObj list list Outcome" where
  "extendComplex_components A P U exts mctx isOrig components i [] extendedNotExpanded s =
     Returns extendedNotExpanded s"
| "extendComplex_components A P U exts mctx isOrig components i (component # rest)
     extendedNotExpanded s =
     (case component of
        CompoundSelector compound \<Rightarrow>
          (case extendCompound A P U compound exts mctx isOrig s of
             Returns extended s1 \<Rightarrow>
               if extended = [] then
                 (if extendedNotExpanded \<noteq> [] then
                    (let (w, s2) = new_ComplexSelector (wrapInComplex compound) s1
                     in extendComplex_components A P U exts mctx isOrig components (i + 1) rest
                          (extendedNotExpanded @ [[w]]) s2)
                  else extendComplex_components A P U exts mctx isOrig components (i + 1) rest
                         extendedNotExpanded s1)
               else
                 (if extendedNotExpanded = [] then
                    (let (wrapped, s2) = wrap_components (take i components) [] s1
                     in extendComplex_components A P U exts mctx isOrig components (i + 1) rest
                          (wrapped @ [extended]) s2)
                  else extendComplex_components A P U exts mctx isOrig components (i + 1) rest
                         (extendedNotExpanded @ [extended]) s1)
           | Throws e s1 \<Rightarrow> Throws e s1
           | Diverges \<Rightarrow> Diverges)
      | SelectorCombinator c \<Rightarrow>
          if extendedNotExpanded \<noteq> [] then
            (let (w, s1) = new_ComplexSelector (ComplexSelector [component] False) s
             in extendComplex_components A P U exts mctx isOrig components (i + 1) rest
                  (extendedNotExpanded @ [[w]]) s1)
          else extendComplex_components A P U exts mctx isOrig components (i + 1) rest
                 extendedNotExpanded s)"

text \<open>
  The loop over the component lists that \<^verbatim>\<open>weave\<close> returned for one path: a new
  complex selector for each, the first one of all made an original when \<open>complex\<close>
  is one.
\<close>

fun extendComplex_weaved ::
  "ComplexSelectorObj \<Rightarrow> bool \<Rightarrow> SelectorComponent list list \<Rightarrow> bool \<Rightarrow> ComplexSelectorObj list
     \<Rightarrow> Extender \<Rightarrow> (bool \<times> ComplexSelectorObj list) \<times> Extender" where
  "extendComplex_weaved complex lineFeed [] first result s = ((first, result), s)"
| "extendComplex_weaved complex lineFeed (components # weaved) first result s =
     (let (cplx, s1) = new_ComplexSelector (ComplexSelector components lineFeed) s;
          s2 = (if first \<and> addr complex \<in> originals s1
                then s1\<lparr>originals := insert (addr cplx) (originals s1)\<rparr> else s1)
      in extendComplex_weaved complex lineFeed weaved False (result @ [cplx]) s2)"

text \<open>The loop over the paths; \<open>W\<close> is \<^verbatim>\<open>weave\<close>, whose code is not among the sources.\<close>

fun extendComplex_paths ::
  "(SelectorComponent list list \<Rightarrow> SelectorComponent list list) \<Rightarrow> ComplexSelectorObj
     \<Rightarrow> ComplexSelectorObj list list \<Rightarrow> bool \<Rightarrow> ComplexSelectorObj list \<Rightarrow> Extender
     \<Rightarrow> ComplexSelectorObj list \<times> Extender" where
  "extendComplex_paths W complex [] first result s = (result, s)"
| "extendComplex_paths W complex (path # rest) first result s =
     (let weaved = W (map (\<lambda>sel. elements (deref sel)) path);
          lineFeed = (hasPreLineFeed (deref complex)
                      \<or> list_ex (\<lambda>pp. hasPreLineFeed (deref pp)) path);
          ((first', result'), s') = extendComplex_weaved complex lineFeed weaved first result s
      in extendComplex_paths W complex rest first' result' s')"

text \<open>\<^verbatim>\<open>extendComplex(complex, extensions, mediaQueryContext)\<close>.\<close>

definition extendComplex ::
  "AstOps \<Rightarrow> ExtendPseudoFn \<Rightarrow> (SelectorComponent list list \<Rightarrow> SelectorComponent list list)
     \<Rightarrow> (SelectorComponent list list \<Rightarrow> SelectorComponent list list) \<Rightarrow> ExtendComplexFn" where
  "extendComplex A P U W complex exts mctx s =
     (let isOrig = (addr complex \<in> originals s);
          components = elements (deref complex)
      in case extendComplex_components A P U exts mctx isOrig components 0 components [] s of
           Returns extendedNotExpanded s1 \<Rightarrow>
             if extendedNotExpanded = [] then Returns [] s1
             else
               (let (result, s2) =
                      extendComplex_paths W complex (permutate extendedNotExpanded) True [] s1
                in Returns result s2)
         | Throws e s1 \<Rightarrow> Throws e s1
         | Diverges \<Rightarrow> Diverges)"

text \<open>\<^verbatim>\<open>hasExactlyOne\<close> and \<^verbatim>\<open>hasMoreThanOne\<close> (lines 28-36).\<close>

definition hasExactlyOne :: "ComplexSelector \<Rightarrow> bool" where
  "hasExactlyOne vec \<longleftrightarrow> length (elements vec) = 1"

definition hasMoreThanOne :: "ComplexSelector \<Rightarrow> bool" where
  "hasMoreThanOne vec \<longleftrightarrow> length (elements vec) > 1"

text \<open>
  Modelled from the spec: \<^verbatim>\<open>expand\<close> (dart_helpers.hpp is not among the sources), by
  which the nested list of a pseudo selector is rewritten selector by selector
  ("extendSimple and pseudo recursion"): the function is applied to every element
  and the results are put one after the other.
\<close>

definition expand :: "'a list \<Rightarrow> ('a \<Rightarrow> 'b list) \<Rightarrow> 'b list" where
  "expand cnt fn = concat (map fn cnt)"

text \<open>
  The selector list of a pseudo selector and its complex selectors are objects of
  their own. The model gives them the next free addresses when \<^verbatim>\<open>extendPseudo\<close>
  passes the list to \<^verbatim>\<open>extendList\<close>: \<open>nested_list\<close> returns the address of the list.
\<close>

fun nested_objects ::
  "ComplexSelector list \<Rightarrow> ComplexSelectorObj list \<Rightarrow> Extender
     \<Rightarrow> ComplexSelectorObj list \<times> Extender" where
  "nested_objects [] objs s = (objs, s)"
| "nested_objects (c # rest) objs s =
     (let (obj, s') = new_ComplexSelector c s in nested_objects rest (objs @ [obj]) s')"

definition nested_list :: "ComplexSelector list \<Rightarrow> Extender \<Rightarrow> nat \<times> Extender" where
  "nested_list sel s =
     (let (objs, s1) = nested_objects sel [] s
      in (next_addr s1,
          s1\<lparr>lists := (lists s1)(next_addr s1 := objs), next_addr := Suc (next_addr s1)\<rparr>))"

text \<open>
  \<^verbatim>\<open>extendPseudo(pseudo, extensions, mediaQueryContext)\<close>, for the \<^verbatim>\<open>extendComplex\<close>
  \<open>X\<close> that \<^verbatim>\<open>extendList\<close> is to call. \<^verbatim>\<open>extendSimple\<close> calls it for a pseudo selector
  with a selector list only; for another simple selector \<^verbatim>\<open>extendList\<close> would read
  a null reference. \<^verbatim>\<open>withSelector\<close> is the pseudo selector with another list.
\<close>

definition extendPseudo :: "nat \<Rightarrow> AstOps \<Rightarrow> ExtendComplexFn \<Rightarrow> ExtendPseudoFn" where
  "extendPseudo fuel A X pseudo exts mctx s =
     (case pseudo of
        Pseudo_Selector n nn a (Some sel) \<Rightarrow>
          (let (list, s0) = nested_list sel s
           in case extendList fuel A X list exts mctx s0 of
                Returns ext s1 \<Rightarrow>
                  (let extended = map deref (lists s1 ext)
                   in if equalList A sel extended then Returns [] s1
                      else
                        (let complexes =
                               (if nn = ''not'' \<and> \<not> hasAny sel hasMoreThanOne
                                   \<and> hasAny extended hasExactlyOne
                                then filter (\<lambda>complex. length (elements complex) \<le> 1) extended
                                else extended);
                             expanded = expand complexes (\<lambda>complex. extendPseudoComplex complex pseudo)
                         in if nn = ''not'' \<and> length sel = 1 then
                              Returns (map (\<lambda>complex. Pseudo_Selector n nn a (Some [complex]))
                                         expanded) s1
                            else Returns [Pseudo_Selector n nn a (Some complexes)] s1))
              | Throws e s1 \<Rightarrow> Throws e s1
              | Diverges \<Rightarrow> Diverges)
      | _ \<Rightarrow> Diverges)"

text \<open>
  The functions call each other: \<^verbatim>\<open>extendComplex\<close> calls \<^verbatim>\<open>extendCompound\<close>, that
  \<^verbatim>\<open>extendSimple\<close>, that \<^verbatim>\<open>extendPseudo\<close> for a pseudo selector with a selector list,
  that \<^verbatim>\<open>extendList\<close>, and that \<^verbatim>\<open>extendComplex\<close> again. \<open>depth\<close> bounds the depth of
  these calls, and the extender does not return when it is used up.
\<close>

fun extendComplex_rec ::
  "nat \<Rightarrow> nat \<Rightarrow> AstOps \<Rightarrow> (SelectorComponent list list \<Rightarrow> SelectorComponent list list)
     \<Rightarrow> (SelectorComponent list list \<Rightarrow> SelectorComponent list list) \<Rightarrow> ExtendComplexFn" where
  "extendComplex_rec 0 fuel A U W = (\<lambda>complex exts mctx s. Diverges)"
| "extendComplex_rec (Suc depth) fuel A U W =
     extendComplex A (extendPseudo fuel A (extendComplex_rec depth fuel A U W)) U W"

subsection \<open>For the examples of extendList and addExtension\<close>

text \<open>
  Modelled from the spec: \<^verbatim>\<open>weave\<close> for one component sequence. It is to produce
  "every component sequence that is a super-sequence of all inputs" (section 4.D):
  for one input, that input. Only the examples use it, and only so.
\<close>

definition weave_single :: "SelectorComponent list list \<Rightarrow> SelectorComponent list list" where
  "weave_single ps = (case ps of [p] \<Rightarrow> [p] | _ \<Rightarrow> [])"

text \<open>
  An extender in the mode \<open>TARGETS\<close> (the one of \<^verbatim>\<open>selector-extend\<close> with several
  targets), with the selector list \<^verbatim>\<open>.a.c\<close> at the address 1.
\<close>

definition targets_rule :: Extender where
  "targets_rule =
     \<lparr> mode = TARGETS, selectors = [], extensions = [], extensionsByExtender = [],
       mediaContexts = [], sourceSpecificity = [], originals = {},
       lists = (\<lambda>a. [])(1 := [classes 10 [''a'', ''c'']]), next_addr = 100 \<rparr>"

text \<open>
  The extender \<^verbatim>\<open>.a:not(.d)\<close>, and the state of the extender after
  \<^verbatim>\<open>addExtension\<close> for \<^verbatim>\<open>.a:not(.d) {@extend .z}\<close>, the first of all calls.
\<close>

definition a_not_d :: ComplexSelectorObj where
  "a_not_d =
     ComplexSelectorObj 1
       (ComplexSelector [CompoundSelector [Class_Selector ''a'', not_of [''d'']]] False)"

definition extends_z_not_d :: Extender where
  "extends_z_not_d =
     \<lparr> mode = NORMAL, selectors = [],
       extensions =
         [(Class_Selector ''z'',
           [(a_not_d, Extension a_not_d (Some (Class_Selector ''z'')) 0 False False None)])],
       extensionsByExtender =
         [(Class_Selector ''a'',
           [Extension a_not_d (Some (Class_Selector ''z'')) 0 False False None]),
          (not_of [''d''],
           [Extension a_not_d (Some (Class_Selector ''z'')) 0 False False None])],
       mediaContexts = [],
       sourceSpecificity = [(Class_Selector ''a'', 2000), (not_of [''d''], 2000)],
       originals = {}, lists = (\<lambda>a. []), next_addr = 100 \<rparr>"

text \<open>
  The extender \<^verbatim>\<open>.a:not(.a)\<close>, and the state of the extender after
  \<^verbatim>\<open>addExtension\<close> for \<^verbatim>\<open>.a {@extend .z}\<close>, the first of all calls: the selector
  \<^verbatim>\<open>.a\<close> is at the address 1.
\<close>

definition a_not_a :: ComplexSelectorObj where
  "a_not_a =
     ComplexSelectorObj 2
       (ComplexSelector [CompoundSelector [Class_Selector ''a'', not_of [''a'']]] False)"

definition extends_z :: Extender where
  "extends_z =
     \<lparr> mode = NORMAL, selectors = [],
       extensions =
         [(Class_Selector ''z'',
           [(classes 1 [''a''],
             Extension (classes 1 [''a'']) (Some (Class_Selector ''z'')) 0 False False None)])],
       extensionsByExtender =
         [(Class_Selector ''a'',
           [Extension (classes 1 [''a'']) (Some (Class_Selector ''z'')) 0 False False None])],
       mediaContexts = [], sourceSpecificity = [(Class_Selector ''a'', 1000)], originals = {},
       lists = (\<lambda>a. []), next_addr = 100 \<rparr>"

section \<open>Source-map mappings (source_map.cpp, lines 65-111)\<close>

text \<open>
  Positions are triples of \<^verbatim>\<open>size_t\<close> (64-bit, unsigned, wrapping); a mapping holds
  the position in the source, the position in the output and the type of its node.
\<close>

type_synonym size_t = "64 word"

datatype Position = Position (file': size_t) (line: size_t) (column: size_t)

datatype Mapping =
  Mapping (original_position: Position) (generated_position: Position) (type': size_t)

text \<open>The six \<^verbatim>\<open>previous_...\<close> variables of the loop.\<close>

datatype Previous = Previous
  (previous_generated_line: size_t)
  (previous_generated_column: size_t)
  (previous_original_line: size_t)
  (previous_original_column: size_t)
  (previous_original_file: size_t)
  (previous_original_type: size_t)

text \<open>
  \<^verbatim>\<open>static_cast<int>(a) - static_cast<int>(b)\<close>: both operands are cut to 32 bits, the
  difference is taken in 32 bits and read as a signed number.
\<close>

definition int_difference :: "size_t \<Rightarrow> size_t \<Rightarrow> int" where
  "int_difference a b = sint ((ucast a :: 32 word) - (ucast b :: 32 word))"

text \<open>
  \<^verbatim>\<open>std::string(count, ';')\<close> throws \<^verbatim>\<open>std::length_error\<close> when the count is
  greater than \<^verbatim>\<open>max_size()\<close>, a number of the C++ library: \<^verbatim>\<open>2^62 - 1\<close> with the
  64-bit libstdc++, and less than \<^verbatim>\<open>2^64 - 1\<close> with every library. Nothing in
  \<^verbatim>\<open>serialize_mappings\<close> catches the exception.
\<close>

definition max_size :: nat where
  "max_size = 2 ^ 62 - 1"

text \<open>
  The loop of \<^verbatim>\<open>serialize_mappings\<close>, one mapping per step; \<open>i\<close> is the index of the
  mapping, \<open>encode\<close> is \<^verbatim>\<open>base64vlq.encode\<close> (base64vlq.hpp is not among the
  sources, so the encoder is a parameter). The result is \<open>None\<close> when the string
  constructor throws.
\<close>

fun serialize_loop ::
  "(int \<Rightarrow> string) \<Rightarrow> nat \<Rightarrow> Previous \<Rightarrow> string \<Rightarrow> Mapping list \<Rightarrow> string option" where
  "serialize_loop encode i p result [] = Some result"
| "serialize_loop encode i p result (m # ms) =
     (let generated_line = line (generated_position m) - 1;
          generated_column = column (generated_position m) - 1;
          original_line = line (original_position m) - 1;
          original_column = column (original_position m) - 1;
          original_file = file' (original_position m) - 1;
          original_type = type' m;
          column_base =
            (if generated_line \<noteq> previous_generated_line p then 0
             else previous_generated_column p);
          separator =
            (if generated_line \<noteq> previous_generated_line p then
               (if generated_line > previous_generated_line p
                then replicate (unat (generated_line - previous_generated_line p)) CHR '';''
                else [])
             else if i > 0 then '','' else []);
          line_now =
            (if generated_line \<noteq> previous_generated_line p
                \<and> generated_line > previous_generated_line p
             then generated_line else previous_generated_line p)
      in if generated_line \<noteq> previous_generated_line p
            \<and> generated_line > previous_generated_line p
            \<and> unat (generated_line - previous_generated_line p) > max_size
         then None
         else
           serialize_loop encode (i + 1)
             (Previous line_now generated_column original_line original_column
                original_file original_type)
             (result @ separator
                @ encode (int_difference generated_column column_base)
                @ encode (int_difference original_file (previous_original_file p))
                @ encode (int_difference original_line (previous_original_line p))
                @ encode (int_difference original_column (previous_original_column p))
                @ encode (int_difference original_type (previous_original_type p)))
             ms)"

definition serialize_mappings :: "(int \<Rightarrow> string) \<Rightarrow> Mapping list \<Rightarrow> string option" where
  "serialize_mappings encode mappings =
     serialize_loop encode 0 (Previous 0 0 0 0 0 0) [] mappings"

text \<open>
  The member \<^verbatim>\<open>names\<close> of the source map that \<^verbatim>\<open>generate_source_map\<close> writes
  (lines 52-55): the array \<^verbatim>\<open>json_names\<close>, to which nothing is appended.
\<close>

definition json_names :: "string list" where
  "json_names = []"

subsection \<open>The format in the words of the specification\<close>

text \<open>
  A segment: the zero-based numbers of one mapping, as unbounded naturals, in the
  order generated line, generated column, source index, original line, original
  column, node type.
\<close>

datatype Segment = Segment
  (gen_line: nat) (gen_col: nat) (src_idx: nat) (orig_line: nat) (orig_col: nat) (node_type: nat)

definition segment_of :: "Mapping \<Rightarrow> Segment" where
  "segment_of m =
     Segment (unat (line (generated_position m)) - 1)
       (unat (column (generated_position m)) - 1)
       (unat (file' (original_position m)) - 1)
       (unat (line (original_position m)) - 1)
       (unat (column (original_position m)) - 1)
       (unat (type' m))"

definition delta :: "nat \<Rightarrow> nat \<Rightarrow> int" where
  "delta now before = int now - int before"

text \<open>
  The text of the segments after \<open>prev\<close> (no segment before the first one: all bases
  are 0 there). One \<open>;\<close> per generated line advanced, which also puts the base of the
  generated column back to 0; a \<open>,\<close> between two segments of one generated line;
  then five fields, each the difference to the same field of the segment before.
\<close>

fun mappings_text :: "(int \<Rightarrow> string) \<Rightarrow> Segment option \<Rightarrow> Segment list \<Rightarrow> string" where
  "mappings_text encode prev [] = []"
| "mappings_text encode prev (s # rest) =
     (let p = (case prev of None \<Rightarrow> Segment 0 0 0 0 0 0 | Some q \<Rightarrow> q);
          advance = gen_line s - gen_line p
      in (if advance > 0 then replicate advance CHR '';''
          else if prev \<noteq> None then '','' else [])
         @ encode (delta (gen_col s) (if advance > 0 then 0 else gen_col p))
         @ encode (delta (src_idx s) (src_idx p))
         @ encode (delta (orig_line s) (orig_line p))
         @ encode (delta (orig_col s) (orig_col p))
         @ encode (delta (node_type s) (node_type p)))
     @ mappings_text encode (Some s) rest"

text \<open>
  The numbers the claim is about: positions are counted from 1 and every number fits
  the \<^verbatim>\<open>int\<close> it is cast to.
\<close>

definition in_int_range :: "size_t \<Rightarrow> bool" where
  "in_int_range x \<longleftrightarrow> 1 \<le> unat x \<and> unat x \<le> 2 ^ 31"

definition mapping_in_range :: "Mapping \<Rightarrow> bool" where
  "mapping_in_range m \<longleftrightarrow>
     in_int_range (line (generated_position m)) \<and> in_int_range (column (generated_position m))
     \<and> in_int_range (file' (original_position m)) \<and> in_int_range (line (original_position m))
     \<and> in_int_range (column (original_position m)) \<and> unat (type' m) < 2 ^ 31"

subsection \<open>A Base64-VLQ encoder, for the examples\<close>

text \<open>
  Modelled from the spec: \<^verbatim>\<open>Base64VLQ::encode\<close> (base64vlq.hpp is not among the
  sources), the Base64-VLQ of Source Map v3: the sign goes to the lowest bit, then
  groups of five bits from the lowest on, each with the continuation bit 32 when more
  groups follow, each written as one Base64 character.
\<close>

definition base64_chars :: string where
  "base64_chars = ''ABCDEFGHIJKLMNOPQRSTUVWXYZabcdefghijklmnopqrstuvwxyz0123456789+/''"

function vlq_digits :: "nat \<Rightarrow> string" where
  "vlq_digits v =
     (if v div 32 > 0 then base64_chars ! (v mod 32 + 32) # vlq_digits (v div 32)
      else [base64_chars ! (v mod 32)])"
  by pat_completeness auto
termination
  by (relation "measure id") auto

declare vlq_digits.simps [simp del]

definition base64vlq_encode :: "int \<Rightarrow> string" where
  "base64vlq_encode n = vlq_digits (if n < 0 then 2 * nat (- n) + 1 else 2 * nat n)"

text \<open>
  Reading a mappings text back: the segments are the pieces between \<open>,\<close> and \<open>;\<close>;
  a Base64 character below 32 ends a number, so the fields of a segment are counted
  by those characters.
\<close>

fun split_segments :: "string \<Rightarrow> string \<Rightarrow> string list" where
  "split_segments seg [] = [seg]"
| "split_segments seg (c # cs) =
     (if c = CHR '','' \<or> c = CHR '';'' then seg # split_segments [] cs
      else split_segments (seg @ [c]) cs)"

definition field_count :: "string \<Rightarrow> nat" where
  "field_count seg = length (filter (\<lambda>c. c \<in> set (take 32 base64_chars)) seg)"

definition four_or_five_fields :: "string \<Rightarrow> bool" where
  "four_or_five_fields text =
     list_all (\<lambda>seg. seg = [] \<or> field_count seg = 4 \<or> field_count seg = 5)
       (split_segments [] text)"

subsection \<open>The loop invariant\<close>

text \<open>
  The loop's variables hold the numbers of the segment before; the numbers of a
  segment fit an \<^verbatim>\<open>int\<close>.
\<close>

definition holds :: "Previous \<Rightarrow> Segment \<Rightarrow> bool" where
  "holds p s \<longleftrightarrow>
     unat (previous_generated_line p) = gen_line s \<and>
     unat (previous_generated_column p) = gen_col s \<and>
     unat (previous_original_file p) = src_idx s \<and>
     unat (previous_original_line p) = orig_line s \<and>
     unat (previous_original_column p) = orig_col s \<and>
     unat (previous_original_type p) = node_type s"

definition small :: "Segment \<Rightarrow> bool" where
  "small s \<longleftrightarrow> gen_col s < 2 ^ 31 \<and> src_idx s < 2 ^ 31 \<and> orig_line s < 2 ^ 31
     \<and> orig_col s < 2 ^ 31 \<and> node_type s < 2 ^ 31"

section \<open>Emitting a number (inspect.cpp, lines 382-415)\<close>

text \<open>
  What \<^verbatim>\<open>Inspect::operator()(Number* n)\<close> reads of the number. The value is a
  double; the function prints it with \<^verbatim>\<open>ss << fixed << n->value()\<close> at the configured
  precision and from then on works on that text, so the text is the input here:
  \<open>value_fixed\<close> is \<^verbatim>\<open>ss.str()\<close>, \<open>value_nonzero\<close> is \<^verbatim>\<open>n->value() != 0\<close>.
  \<open>unit'\<close> is the text \<^verbatim>\<open>n->unit()\<close>, \<open>zero'\<close> the flag \<^verbatim>\<open>n->zero()\<close>.
\<close>

record Number =
  value_fixed :: string
  value_nonzero :: bool
  numerator_units :: "string list"
  denominator_units :: "string list"
  unit' :: string
  zero' :: bool

text \<open>
  The loop \<^verbatim>\<open>for (size_t i = d.length()-1; d[i] == '0'; --i) d.resize(d.length()-1);\<close>
  The index is always the last position of \<open>d\<close>. When \<open>d\<close> has become empty the
  index has wrapped around to the largest \<^verbatim>\<open>size_t\<close> and \<^verbatim>\<open>d[i]\<close> reads outside the
  string, which is undefined behaviour: \<open>None\<close>.
\<close>

function strip_zeros :: "string \<Rightarrow> string option" where
  "strip_zeros d =
     (if d = [] then None
      else if d ! (length d - 1) = CHR ''0'' then strip_zeros (take (length d - 1) d)
      else Some d)"
  by pat_completeness auto
termination
  by (relation "measure length") auto

declare strip_zeros.simps [simp del]

text \<open>The condition of the \<^verbatim>\<open>if\<close> that calls \<^verbatim>\<open>error\<close>, as written.\<close>

definition invalid_units :: "Number \<Rightarrow> bool" where
  "invalid_units n \<longleftrightarrow>
     length (numerator_units n) > 1 \<or>
     length (denominator_units n) > 0 \<or>
     (length (numerator_units n) \<noteq> 0 \<and> CHR ''/'' \<in> set (numerator_units n ! 0)) \<or>
     (length (numerator_units n) \<noteq> 0 \<and> CHR ''*'' \<in> set (numerator_units n ! 0))"

text \<open>\<^verbatim>\<open>d.erase(pos, len)\<close> of \<^verbatim>\<open>std::string\<close>, for \<open>pos\<close> inside the string.\<close>

definition erase :: "string \<Rightarrow> nat \<Rightarrow> nat \<Rightarrow> string" where
  "erase d pos len = take pos d @ drop (pos + len) d"

definition leading_zero :: "string \<Rightarrow> string" where
  "leading_zero d =
     (let d1 = (if take 3 d = ''-0.'' then erase d 1 1 else d)
      in if take 2 d1 = ''0.'' then erase d1 0 1 else d1)"

text \<open>
  The function: \<open>None\<close> is undefined behaviour, \<open>Some (Inl e)\<close> the error thrown,
  \<open>Some (Inr t)\<close> the text appended to the buffer (number, then unit).
\<close>

definition Inspect_Number :: "bool \<Rightarrow> Number \<Rightarrow> (Exception + string) option" where
  "Inspect_Number in_declaration_list n =
     (case strip_zeros (value_fixed n) of
        None \<Rightarrow> None
      | Some d0 \<Rightarrow>
          let d1 = (if d0 ! (length d0 - 1) = CHR ''.'' then take (length d0 - 1) d0 else d0)
          in if invalid_units n
             then Some (Inl (Error_Invalid (d1 @ unit' n @ '' isn't a valid CSS value.'')))
             else
               let d2 = (if \<not> zero' n \<and> \<not> in_declaration_list then leading_zero d1 else d1);
                   d3 = (if d2 = ''-0'' then erase d2 0 1 else d2);
                   d4 = (if d3 = ''0'' \<and> value_nonzero n then ''0.0'' else d3)
               in Some (Inr (d4 @ unit' n)))"

text \<open>
  The claim's words for the units that cannot be emitted: more than one numerator
  unit, a denominator unit, or a numerator unit with \<open>*\<close> or \<open>/\<close> in its name.
\<close>

definition unit_product_or_quotient :: "Number \<Rightarrow> bool" where
  "unit_product_or_quotient n \<longleftrightarrow>
     length (numerator_units n) > 1 \<or> denominator_units n \<noteq> [] \<or>
     list_ex (\<lambda>u. CHR ''*'' \<in> set u \<or> CHR ''/'' \<in> set u) (numerator_units n)"

text \<open>The fractional digits of a printed number without their trailing zeros.\<close>

definition strip_fraction :: "string \<Rightarrow> string" where
  "strip_fraction fr = rev (dropWhile (\<lambda>c. c = CHR ''0'') (rev fr))"

text \<open>
  The text of a number printed as \<open>ip.fr\<close> once the trailing zeros of the fraction
  and a decimal point left at the end are gone.
\<close>

definition printed :: "string \<Rightarrow> string \<Rightarrow> string" where
  "printed ip fr = (if strip_fraction fr = [] then ip else ip @ CHR ''.'' # strip_fraction fr)"

section \<open>Quoting and unquoting strings (inspect.cpp)\<close>

text \<open>
  \<^verbatim>\<open>quote(s, q)\<close>: the empty string becomes two quote marks; a string that already
  starts with a quote mark (or a zero quote character) is returned as it is; otherwise
  the string is wrapped in \<open>q\<close> and every embedded \<open>q\<close> gets a backslash in front.
  The characters are written by their codes: \<open>0x22\<close> is the double quote,
  \<open>0x27\<close> the single quote, \<open>0x5C\<close> the backslash.
\<close>

fun quote_loop :: "string \<Rightarrow> char \<Rightarrow> string \<Rightarrow> string" where
  "quote_loop [] q t = t"
| "quote_loop (c # cs) q t =
     quote_loop cs q ((if c = q then t @ [CHR 0x5C] else t) @ [c])"

definition quote :: "string \<Rightarrow> char \<Rightarrow> string" where
  "quote s q =
     (if s = [] then replicate 2 q
      else if q = CHR 0x00 \<or> hd s = CHR 0x22 \<or> hd s = CHR 0x27 then s
      else quote_loop s q [q] @ [q])"

text \<open>
  The loop of \<^verbatim>\<open>unquote\<close>: \<open>i\<close> runs from 1 to \<open>L = length s - 1\<close> (exclusive);
  a quote mark that follows a backslash removes the last character pushed to \<open>t\<close>
  (\<^verbatim>\<open>t.erase(t.length()-1)\<close>), then the character is pushed.
\<close>

function unquote_loop :: "string \<Rightarrow> char \<Rightarrow> nat \<Rightarrow> nat \<Rightarrow> string \<Rightarrow> string" where
  "unquote_loop s q i L t =
     (if i < L
      then unquote_loop s q (Suc i) L
             ((if s ! (i - 1) = CHR 0x5C \<and> s ! i = q then butlast t else t) @ [s ! i])
      else t)"
  by pat_completeness auto
termination
  by (relation "measure (\<lambda>(s, q, i, L, t). L - i)") auto

declare unquote_loop.simps [simp del]

definition unquote :: "string \<Rightarrow> string" where
  "unquote s =
     (if s = [] then []
      else if length s = 1 \<and> (s ! 0 = CHR 0x22 \<or> s ! 0 = CHR 0x27) then []
      else if hd s = CHR 0x22 \<and> last s = CHR 0x22
        then unquote_loop s (CHR 0x22) 1 (length s - 1) []
      else if hd s = CHR 0x27 \<and> last s = CHR 0x27
        then unquote_loop s (CHR 0x27) 1 (length s - 1) []
      else s)"

text \<open>
  What the comments of the two functions say they do, as functions on lists:
  \<open>escape_quotes\<close> puts a backslash before every \<open>q\<close>; \<open>unescape_quotes\<close> reads a
  text from left to right, \<open>prev\<close> being the character before it, and drops the
  character pushed last when a \<open>q\<close> follows a backslash.
\<close>

fun escape_quotes :: "char \<Rightarrow> string \<Rightarrow> string" where
  "escape_quotes q [] = []"
| "escape_quotes q (c # cs) = (if c = q then [CHR 0x5C, c] else [c]) @ escape_quotes q cs"

fun unescape_quotes :: "char \<Rightarrow> char \<Rightarrow> string \<Rightarrow> string \<Rightarrow> string" where
  "unescape_quotes prev q [] t = t"
| "unescape_quotes prev q (c # cs) t =
     unescape_quotes c q cs ((if prev = CHR 0x5C \<and> c = q then butlast t else t) @ [c])"

chapter \<open>Verification\<close>

section \<open>extendPseudoComplex\<close>

lemma guard_matches_never: "\<not> guard_matches nm"
  by (auto simp: guard_matches_def)

lemma guard_has_never: "\<not> guard_has nm"
  by (auto simp: guard_has_def)

text \<open>
  Claim C1. The branch guarded by \<open>name == "matches" && name == "any" && ...\<close> and
  the branch guarded by \<open>name == "has" && name == "host" && ...\<close> are dead: neither
  guard holds for any string. So for a pseudo selector whose normalized name is not
  \<open>not\<close> (matches, any, current, nth-child, nth-last-child, has, host, host-context,
  slotted among them) and a complex selector that is one compound selector made of one
  pseudo selector with a selector list, the function reaches the final \<open>return {}\<close>.
\<close>

theorem extendPseudoComplex_dead_branches:
  "\<not> guard_matches nm \<and> \<not> guard_has nm \<and>
   (normalized pseudo \<noteq> ''not'' \<longrightarrow>
      extendPseudoComplex
        (ComplexSelector [CompoundSelector [Pseudo_Selector n nn a (Some inner)]] lf) pseudo = [])"
  by (simp add: guard_matches_never guard_has_never extendPseudoComplex_def
      extendPseudoComplex_chain_def)

theorem extendPseudoComplex_dead_branches_witness:
  "extendPseudoComplex
     (ComplexSelector
        [CompoundSelector
           [Pseudo_Selector ''matches'' ''matches'' None
              (Some [ComplexSelector [CompoundSelector [Class_Selector ''a'']] False])]]
        False)
     (Pseudo_Selector ''matches'' ''matches'' None
        (Some [ComplexSelector [CompoundSelector [Class_Selector ''b'']] False])) = []
   \<and> extendPseudoComplex
     (ComplexSelector
        [CompoundSelector
           [Pseudo_Selector ''has'' ''has'' None
              (Some [ComplexSelector [CompoundSelector [Class_Selector ''a'']] False])]]
        False)
     (Pseudo_Selector ''has'' ''has'' None
        (Some [ComplexSelector [CompoundSelector [Class_Selector ''b'']] False])) = []"
  using extendPseudoComplex_dead_branches
      [of "''matches''" "Pseudo_Selector ''matches'' ''matches'' None
          (Some [ComplexSelector [CompoundSelector [Class_Selector ''b'']] False])"
        "''matches''" "''matches''" None
        "[ComplexSelector [CompoundSelector [Class_Selector ''a'']] False]" False]
    extendPseudoComplex_dead_branches
      [of "''has''" "Pseudo_Selector ''has'' ''has'' None
          (Some [ComplexSelector [CompoundSelector [Class_Selector ''b'']] False])"
        "''has''" "''has''" None
        "[ComplexSelector [CompoundSelector [Class_Selector ''a'']] False]" False]
  by simp

section \<open>Media-context compatibility\<close>

text \<open>
  Claim C5 as stated: the check raises exactly when the extension's media context and
  the rule's media context are not equal by value (two null contexts being equal).
  It fails for an extension written outside every media query (null context) applied
  to a rule inside \<^verbatim>\<open>@media print\<close>: the two contexts differ, and the first line
  of the function returns without error.
\<close>

theorem assertCompatibleMediaContext_null_counterexample:
  "assertCompatibleMediaContext same_queries
      (Extension (classes 1 [''b''])
         (Some (Class_Selector ''a'')) 0 False False None)
      (Some (CssMediaRule 1 [''print''])) = None
   \<and> \<not> ObjEqualityFn same_queries (Some (CssMediaRule 1 [''print'']))
        (mediaContext (Extension (classes 1 [''b''])
           (Some (Class_Selector ''a'')) 0 False False None))"
  by (simp add: assertCompatibleMediaContext_def ObjEqualityFn_def)

text \<open>
  Claim C5, amended. The check raises \<open>ExtendAcrossMedia\<close> exactly when the
  extension's media context is not null, the rule's context does not share its block
  with it, and the two contexts are not equal by value (a null rule context is equal
  to no extension context that is not null). In every other case it returns without
  error; an extension with a null media context is compatible with every rule. This
  holds for every value comparison \<open>eqv\<close> of media rules.
\<close>

theorem assertCompatibleMediaContext_raises:
  "assertCompatibleMediaContext eqv ext ctx =
     (if mediaContext ext \<noteq> None \<and> \<not> shares_block (mediaContext ext) ctx
          \<and> \<not> ObjEqualityFn eqv ctx (mediaContext ext)
      then Some (ExtendAcrossMedia ext) else None)"
  by (cases "mediaContext ext"; cases ctx)
    (simp_all add: assertCompatibleMediaContext_def shares_block_def ObjEqualityFn_def)

theorem assertCompatibleMediaContext_raises_witness:
  "assertCompatibleMediaContext same_queries
      (Extension (classes 1 [''b''])
         (Some (Class_Selector ''a'')) 0 False False (Some (CssMediaRule 1 [''print''])))
      None
     = Some (ExtendAcrossMedia
         (Extension (classes 1 [''b''])
           (Some (Class_Selector ''a'')) 0 False False (Some (CssMediaRule 1 [''print'']))))
   \<and> assertCompatibleMediaContext same_queries
      (Extension (classes 1 [''b''])
         (Some (Class_Selector ''a'')) 0 False False (Some (CssMediaRule 1 [''print''])))
      (Some (CssMediaRule 2 [''print''])) = None"
  using assertCompatibleMediaContext_raises [of same_queries
      "Extension (classes 1 [''b''])
         (Some (Class_Selector ''a'')) 0 False False (Some (CssMediaRule 1 [''print'']))" None]
    assertCompatibleMediaContext_raises [of same_queries
      "Extension (classes 1 [''b''])
         (Some (Class_Selector ''a'')) 0 False False (Some (CssMediaRule 1 [''print'']))"
      "Some (CssMediaRule 2 [''print''])"]
  by (simp add: shares_block_def ObjEqualityFn_def same_queries_def)

section \<open>trim\<close>

subsection \<open>What trim removes\<close>

lemma find_duplicate_None:
  "numOriginals \<le> length result \<Longrightarrow>
   find_duplicate A result numOriginals c j = None
     \<longleftrightarrow> \<not> list_ex (\<lambda>d. equalComplex A (deref d) (deref c)) (drop j (take numOriginals result))"
proof (induction A result numOriginals c j rule: find_duplicate.induct)
  case (1 A result numOriginals complex1 j)
  show ?case
  proof (cases "j < numOriginals")
    case True
    then have "drop j (take numOriginals result)
        = result ! j # drop (Suc j) (take numOriginals result)"
      using "1.prems" by (metis Cons_nth_drop_Suc length_take min.absorb2 nth_take)
    then show ?thesis
      using True "1.IH" "1.prems" by (subst find_duplicate.simps) auto
  next
    case False
    then show ?thesis by (subst find_duplicate.simps) simp
  qed
qed

lemma originals_retained:
  "length (filter (\<lambda>d. addr d \<in> existing) post) \<le> length (retained A ss existing pre post)"
proof (induction post arbitrary: pre)
  case Nil
  then show ?case by simp
next
  case (Cons c post)
  show ?case
    using Cons [of "pre @ [c]"] by (auto simp: Let_def)
qed

lemma no_duplicate_originals_append:
  "no_duplicate_originals A ss existing pre (xs @ c # post) \<Longrightarrow>
   no_duplicate_originals A ss existing (pre @ xs) (c # post)"
proof (induction xs arbitrary: pre)
  case Nil
  then show ?case by simp
next
  case (Cons a xs)
  from Cons.prems have "no_duplicate_originals A ss existing (pre @ [a]) (xs @ c # post)"
    by simp
  then have "no_duplicate_originals A ss existing ((pre @ [a]) @ xs) (c # post)"
    by (rule Cons.IH)
  then show ?case by simp
qed

lemma trim_scan_retained:
  assumes "no_duplicate_originals A ss existing [] candidates" and "i \<le> length candidates"
  shows "trim_scan A ss existing candidates i
           (retained A ss existing (take i candidates) (drop i candidates))
           (length (filter (\<lambda>d. addr d \<in> existing) (drop i candidates)))
         = Done (retained A ss existing [] candidates)"
  using assms(2)
proof (induction i)
  case 0
  then show ?case by simp
next
  case (Suc i)
  let ?c = "candidates ! i"
  let ?pre = "take i candidates"
  let ?post = "drop (Suc i) candidates"
  have i: "i < length candidates" using Suc.prems by simp
  have split: "candidates = ?pre @ ?c # ?post"
    using i by (simp add: id_take_nth_drop)
  have take_Suc: "take (Suc i) candidates = ?pre @ [?c]"
    using i by (simp add: take_Suc_conv_app_nth)
  have drop_i: "drop i candidates = ?c # ?post"
    using i by (simp add: Cons_nth_drop_Suc)
  have nd: "no_duplicate_originals A ss existing ?pre (?c # ?post)"
    using no_duplicate_originals_append [of A ss existing "[]" ?pre ?c ?post] assms(1) split
    by simp
  have dom: "dontTrimComplex A (deref d) (deref ?c) (maxSpecificity_of A ss (deref ?c))
      \<longleftrightarrow> dominates A ss d ?c" for d
    by (auto simp: dontTrimComplex_def dominates_def)
  have IH: "trim_scan A ss existing candidates i
           (retained A ss existing ?pre (?c # ?post))
           (length (filter (\<lambda>d. addr d \<in> existing) (?c # ?post)))
         = Done (retained A ss existing [] candidates)"
    using Suc.IH i drop_i by simp
  show ?case
  proof (cases "addr ?c \<in> existing")
    case True
    have "find_duplicate A (retained A ss existing (?pre @ [?c]) ?post)
        (length (filter (\<lambda>d. addr d \<in> existing) ?post)) ?c 0 = None"
      using nd True originals_retained [of existing ?post A ss "?pre @ [?c]"]
      by (simp add: find_duplicate_None)
    then show ?thesis
      using True IH by (simp add: take_Suc Let_def)
  next
    case False
    show ?thesis
    proof (cases "list_ex (\<lambda>d. dominates A ss d ?c) (retained A ss existing (?pre @ [?c]) ?post)
        \<or> list_ex (\<lambda>d. dominates A ss d ?c) ?pre")
      case True
      then show ?thesis
        using False IH by (auto simp: take_Suc Let_def hasAny_def hasSubAny_def dom)
    next
      case dominated: False
      then show ?thesis
        using False IH by (auto simp: take_Suc Let_def hasAny_def hasSubAny_def dom)
    qed
  qed
qed

text \<open>
  Claim C2, amended. Of more than 100 candidates \<^verbatim>\<open>trim\<close> removes none. Of at most
  100 candidates, as long as no original meets an equal selector among the first
  \<open>numOriginals\<close> candidates of \<open>result\<close>, it returns (one run of the loop suffices)
  and removes a candidate exactly when the candidate is not in \<open>originals\<close> and
  some selector makes it redundant (is a superselector of it whose minimum
  specificity is at least the maximum source specificity of the candidate's
  compounds) that is either retained from the candidates after it or any candidate
  before it, retained or not.
\<close>

theorem trim_removes:
  "(length candidates > 100 \<longrightarrow> trim fuel A ss candidates existing = Some candidates) \<and>
   (length candidates \<le> 100 \<and> no_duplicate_originals A ss existing [] candidates \<longrightarrow>
      trim (Suc fuel) A ss candidates existing = Some (retained A ss existing [] candidates))"
proof (intro conjI impI)
  assume "length candidates > 100"
  then show "trim fuel A ss candidates existing = Some candidates"
    by (simp add: trim_def)
next
  assume a: "length candidates \<le> 100 \<and> no_duplicate_originals A ss existing [] candidates"
  then show "trim (Suc fuel) A ss candidates existing = Some (retained A ss existing [] candidates)"
    using trim_scan_retained [of A ss existing candidates "length candidates"]
    by (simp add: trim_def)
qed

lemmas trim_eval = trim_def Let_def find_duplicate.simps rotateSlice_def rotateSlice_loop.simps
  hasAny_def hasSubAny_def dontTrimComplex_def maxSpecificity_of_def
  maxSourceSpecificity_compound_def maxSourceSpecificity_def class_ops_def classes_def
  classes_of_def

theorem trim_removes_witness:
  "length [classes 10 [''a'', ''b''], classes 20 [''a'', ''b''], classes 30 [''a'', ''b'', ''c''],
      classes 40 [''x'']] \<le> 100
   \<and> no_duplicate_originals class_ops [] {10} []
      [classes 10 [''a'', ''b''], classes 20 [''a'', ''b''], classes 30 [''a'', ''b'', ''c''],
       classes 40 [''x'']]
   \<and> trim 1 class_ops []
      [classes 10 [''a'', ''b''], classes 20 [''a'', ''b''], classes 30 [''a'', ''b'', ''c''],
       classes 40 [''x'']] {10}
     = Some [classes 10 [''a'', ''b''], classes 40 [''x'']]"
proof -
  let ?W = "[classes 10 [''a'', ''b''], classes 20 [''a'', ''b''], classes 30 [''a'', ''b'', ''c''],
      classes 40 [''x'']]"
  have kept: "retained class_ops [] {10} [] ?W = [classes 10 [''a'', ''b''], classes 40 [''x'']]"
    by (simp add: dominates_def trim_eval)
  have nd: "no_duplicate_originals class_ops [] {10} [] ?W"
    by (simp add: dominates_def trim_eval)
  have len: "length ?W \<le> 100"
    by simp
  from trim_removes [of ?W 0 class_ops "[]" "{10}"] nd len
  have "trim 1 class_ops [] ?W {10} = Some (retained class_ops [] {10} [] ?W)"
    by simp
  with kept nd len show ?thesis
    by simp
qed

text \<open>
  Claim C2 as stated fails in two ways. Of 101 candidates \<^verbatim>\<open>.a\<close>, none of them an
  original, all stay, although each is made redundant by a retained one. And of
  the candidates \<^verbatim>\<open>.a\<close>, \<^verbatim>\<open>.a.b\<close>, \<^verbatim>\<open>.a.b.c\<close>, where \<^verbatim>\<open>.c\<close> has the
  source specificity 2000, only \<^verbatim>\<open>.a\<close> stays: \<^verbatim>\<open>.a.b.c\<close> is removed for
  \<^verbatim>\<open>.a.b\<close>, which is removed itself, and the retained \<^verbatim>\<open>.a\<close> does not have the
  specificity to make \<^verbatim>\<open>.a.b.c\<close> redundant.
\<close>

theorem trim_removes_counterexample:
  "trim 1 class_ops [] (map (\<lambda>n. classes n [''a'']) [0..<101]) {}
     = Some (map (\<lambda>n. classes n [''a'']) [0..<101])
   \<and> dominates class_ops [] (classes 0 [''a'']) (classes 1 [''a''])
   \<and> trim 1 class_ops [(Class_Selector ''c'', 2000)]
       [classes 10 [''a''], classes 20 [''a'', ''b''], classes 30 [''a'', ''b'', ''c'']] {}
     = Some [classes 10 [''a'']]
   \<and> \<not> dominates class_ops [(Class_Selector ''c'', 2000)]
         (classes 10 [''a'']) (classes 30 [''a'', ''b'', ''c''])"
  by (simp add: dominates_def trim_eval)

subsection \<open>Duplicate originals\<close>

lemma dup_input_pass1: "trim_scan class_ops [] {10, 20, 30} dup_input (length dup_input) [] 0
   = Redo [classes 20 [''a''], classes 30 [''b''], classes 40 [''x'']] 2"
  by (simp add: dup_input_def trim_eval)

lemma dup_input_pass2: "trim_scan class_ops [] {10, 20, 30} dup_input (length dup_input)
     [classes 20 [''a''], classes 30 [''b''], classes 40 [''x'']] 2
   = Redo [classes 30 [''b''], classes 20 [''a''], classes 40 [''x'']] 2"
  by (simp add: dup_input_def trim_eval)

lemma dup_input_pass3: "trim_scan class_ops [] {10, 20, 30} dup_input (length dup_input)
     [classes 30 [''b''], classes 20 [''a''], classes 40 [''x'']] 2
   = Redo [classes 30 [''b''], classes 20 [''a''], classes 40 [''x'']] 2"
  by (simp add: dup_input_def trim_eval)

lemma dup_input_stuck: "trim_redo fuel class_ops [] {10, 20, 30} dup_input
     [classes 30 [''b''], classes 20 [''a''], classes 40 [''x'']] 2 = None"
  by (induction fuel) (simp_all add: dup_input_pass3)

text \<open>
  Claim C6 on the candidates of \<open>dup_input\<close>. The loop keeps both copies of
  \<^verbatim>\<open>.a\<close> apart until it comes to the first one, finds the second one at
  \<open>result[0]\<close>, rotates and jumps to \<^verbatim>\<open>redo\<close>, which starts the loop again at the
  last candidate with \<open>result\<close> and \<open>numOriginals\<close> as they are. From the third
  run on every run finds \<^verbatim>\<open>.b\<close> at \<open>result[0]\<close> and jumps again, in the same
  state: the function never returns, whatever the number of runs allowed.
\<close>

theorem trim_never_returns: "\<forall>fuel. trim fuel class_ops [] dup_input {10, 20, 30} = None"
proof
  fix fuel
  have len: "\<not> length dup_input > 100" by (simp add: dup_input_def)
  show "trim fuel class_ops [] dup_input {10, 20, 30} = None"
  proof (cases fuel)
    case 0
    with len show ?thesis by (simp add: trim_def)
  next
    case (Suc f)
    show ?thesis
    proof (cases f)
      case 0
      with Suc len show ?thesis by (simp add: trim_def dup_input_pass1)
    next
      case (Suc g)
      with \<open>fuel = Suc f\<close> len show ?thesis by (simp add: trim_def dup_input_pass1 dup_input_pass2 dup_input_stuck)
    qed
  qed
qed

subsection \<open>Originals are never removed\<close>

text \<open>Whenever \<^verbatim>\<open>trim\<close> returns, every candidate that is an original is in its result.\<close>

lemma trim_scan_keeps_originals:
  "trim_scan A ss existing candidates i result n = Done r \<Longrightarrow> i \<le> length candidates \<Longrightarrow>
   set result \<subseteq> set r \<and> (\<forall>k<i. addr (candidates ! k) \<in> existing \<longrightarrow> candidates ! k \<in> set r)"
proof (induction i arbitrary: result n)
  case 0
  then show ?case by simp
next
  case (Suc i)
  show ?case
  proof (cases "addr (candidates ! i) \<in> existing")
    case True
    with Suc.prems(1) obtain "find_duplicate A result n (candidates ! i) 0 = None"
      and "trim_scan A ss existing candidates i (candidates ! i # result) (n + 1) = Done r"
      by (auto simp: Let_def split: option.splits)
    with Suc.IH [of "candidates ! i # result" "n + 1"] Suc.prems(2) show ?thesis
      by (auto simp: less_Suc_eq)
  next
    case False
    with Suc.prems(1) have "trim_scan A ss existing candidates i result n = Done r
        \<or> trim_scan A ss existing candidates i (candidates ! i # result) n = Done r"
      by (auto simp: Let_def split: if_splits)
    with Suc.IH [of result n] Suc.IH [of "candidates ! i # result" n] Suc.prems(2) False
    show ?thesis
      by (auto simp: less_Suc_eq)
  qed
qed

lemma trim_redo_keeps_originals:
  "trim_redo fuel A ss existing candidates result n = Some r \<Longrightarrow>
   \<forall>c\<in>set candidates. addr c \<in> existing \<longrightarrow> c \<in> set r"
proof (induction fuel arbitrary: result n)
  case 0
  then show ?case by simp
next
  case (Suc fuel)
  show ?case
  proof (cases "trim_scan A ss existing candidates (length candidates) result n")
    case (Done r')
    with Suc.prems have "r' = r" by simp
    with Done trim_scan_keeps_originals [of A ss existing candidates "length candidates" result n r]
    show ?thesis by (auto simp: in_set_conv_nth)
  next
    case (Redo r' n')
    with Suc.prems have "trim_redo fuel A ss existing candidates r' n' = Some r" by simp
    then show ?thesis by (rule Suc.IH)
  qed
qed

lemma trim_keeps_originals:
  "trim fuel A ss candidates existing = Some r \<Longrightarrow>
   \<forall>c\<in>set candidates. addr c \<in> existing \<longrightarrow> c \<in> set r"
  using trim_redo_keeps_originals [of fuel A ss existing candidates "[]" 0 r]
  by (auto simp: trim_def split: if_splits)

section \<open>extendCompound: the targets used\<close>

lemma find_entry_Some_key:
  "find_entry eq m k = Some v \<Longrightarrow> \<exists>k'. (k', v) \<in> set m \<and> eq k' k"
  by (induction m) (auto split: if_splits)

lemma plain_found:
  assumes "plain_equality A" "plain x" "find_entry (equalSimple A) exts x = Some v"
  shows "x \<in> set (map fst exts)"
proof -
  from find_entry_Some_key [OF assms(3)] obtain k where "(k, v) \<in> set exts" "equalSimple A k x"
    by blast
  with assms(1,2) have "(x, v) \<in> set exts" by (simp add: plain_equality_def)
  then show ?thesis by force
qed

lemma extendWithoutPseudo_plain:
  assumes "plain_equality A" "plain x" "used_ok exts xs used" "x \<in> set xs"
    and "extendWithoutPseudo A x exts used s = ((result, used'), s')"
  shows "used_ok exts xs used'"
    and "(used = None) = (used' = None)"
    and "result \<noteq> [] \<Longrightarrow> x \<in> set (map fst exts) \<and> used' \<noteq> Some []"
    and "used \<noteq> Some [] \<Longrightarrow> used' \<noteq> Some []"
proof -
  show "used' \<noteq> Some []" if "used \<noteq> Some []"
    using assms(5) that
    by (auto simp: extendWithoutPseudo_def targets_insert_def split: option.splits if_splits prod.splits)
  show "used_ok exts xs used'"
  proof (cases "find_entry (equalSimple A) exts x")
    case None
    with assms(3,5) show ?thesis by (simp add: extendWithoutPseudo_def)
  next
    case (Some v)
    then have key: "x \<in> set (map fst exts)" using assms(1,2) by (rule plain_found [rotated 2])
    have ins: "used' = targets_insert A x used"
      using assms(5) Some by (auto simp: extendWithoutPseudo_def split: if_splits prod.splits)
    show ?thesis
      using assms(1,2,3,4) key unfolding ins
      by (auto simp: used_ok_def targets_insert_def plain_equality_def list_ex_iff
          split: option.splits)
  qed
  show "(used = None) = (used' = None)"
    using assms(5)
    by (auto simp: extendWithoutPseudo_def targets_insert_def split: option.splits if_splits prod.splits)
  show "x \<in> set (map fst exts) \<and> used' \<noteq> Some []" if "result \<noteq> []"
  proof (cases "find_entry (equalSimple A) exts x")
    case None
    with assms(5) that show ?thesis by (simp add: extendWithoutPseudo_def)
  next
    case (Some v)
    then have key: "x \<in> set (map fst exts)" using assms(1,2) by (rule plain_found [rotated 2])
    have ins: "used' = targets_insert A x used"
      using assms(5) Some by (auto simp: extendWithoutPseudo_def split: if_splits prod.splits)
    show ?thesis
      using key unfolding ins by (auto simp: targets_insert_def split: option.splits)
  qed
qed


lemma extendSimple_plain:
  "plain x \<Longrightarrow>
   extendSimple A P x exts mctx used s =
     (let ((result, used'), s1) = extendWithoutPseudo A x exts used s
      in if result = [] then Returns ([], used') s1 else Returns ([result], used') s1)"
  by (cases x rule: plain.cases) (simp_all add: extendSimple_def)

lemma extendCompound_options_plain:
  assumes "plain_equality A" "list_all plain rest" "set rest \<subseteq> set xs" "used_ok exts xs used"
  shows "\<exists>options' used' s'.
     extendCompound_options A P exts mctx compound i rest options used s
       = Returns (options', used') s'
     \<and> used_ok exts xs used' \<and> (used = None) = (used' = None)
     \<and> (used \<noteq> Some [] \<longrightarrow> used' \<noteq> Some [])
     \<and> (options' \<noteq> [] \<longrightarrow> options \<noteq> []
            \<or> ((\<exists>x\<in>set rest. x \<in> set (map fst exts)) \<and> used' \<noteq> Some []))"
  using assms(2,3,4)
proof (induction rest arbitrary: i options used s)
  case Nil
  then show ?case by simp
next
  case (Cons x rest)
  have px: "plain x" and prest: "list_all plain rest" and xin: "x \<in> set xs"
    and sub: "set rest \<subseteq> set xs"
    using Cons.prems by simp_all
  obtain result used1 s1 where W: "extendWithoutPseudo A x exts used s = ((result, used1), s1)"
    by (metis prod.exhaust)
  note w = extendWithoutPseudo_plain [OF assms(1) px Cons.prems(3) xin W]
  define opts where "opts =
     (if result = [] then (if options \<noteq> [] then options @ [[fst (extensionForSimple A x s1)]]
                           else options)
      else if options = [] \<and> i \<noteq> 0
        then [[fst (extensionForCompound (take i compound) s1)]] @ [result]
      else options @ [result])"
  define s2 where "s2 =
     (if result = [] then (if options \<noteq> [] then snd (extensionForSimple A x s1) else s1)
      else if options = [] \<and> i \<noteq> 0
        then snd (extensionForCompound (take i compound) s1)
      else s1)"
  have step: "extendCompound_options A P exts mctx compound i (x # rest) options used s
      = extendCompound_options A P exts mctx compound (i + 1) rest opts used1 s2"
    by (simp add: extendSimple_plain [OF px] W opts_def s2_def case_prod_beta)
  from Cons.IH [OF prest sub w(1), of "i + 1" opts s2]
  obtain o' u' t' where R:
    "extendCompound_options A P exts mctx compound (i + 1) rest opts used1 s2
       = Returns (o', u') t'" "used_ok exts xs u'" "(used1 = None) = (u' = None)"
    "used1 \<noteq> Some [] \<longrightarrow> u' \<noteq> Some []"
    "o' \<noteq> [] \<longrightarrow> opts \<noteq> [] \<or> ((\<exists>x\<in>set rest. x \<in> set (map fst exts)) \<and> u' \<noteq> Some [])"
    by blast
  have "o' \<noteq> [] \<longrightarrow> options \<noteq> []
      \<or> ((\<exists>y\<in>set (x # rest). y \<in> set (map fst exts)) \<and> u' \<noteq> Some [])"
  proof (cases "result = []")
    case True
    then have "opts \<noteq> [] \<longrightarrow> options \<noteq> []" by (simp add: opts_def)
    with R(5) show ?thesis by auto
  next
    case False
    from w(3) [OF False] R(4) show ?thesis by auto
  qed
  with R w(2,4) show ?case
    unfolding step by auto
qed


text \<open>
  Claim C4, amended. For a compound selector without pseudo selectors that carry a
  selector list, in every mode other than \<open>NORMAL\<close>, \<^verbatim>\<open>extendCompound\<close> returns a
  non-empty result only if every target key of the extension map is one of the
  simple selectors of the compound. (With more than one key the function counts the
  targets used and returns the empty list when it counted some, but not as many as
  there are keys; with one key a non-empty result needs that key.)
\<close>

theorem extendCompound_all_targets_used:
  assumes "mode s \<noteq> NORMAL" and "list_all plain compound" and "plain_equality A"
    and "extendCompound A P U compound exts mctx inOriginal s = Returns r s'" and "r \<noteq> []"
  shows "set (map fst exts) \<subseteq> set compound"
proof -
  define used0 :: "ExtSmplSelSet option" where
    "used0 = (if length exts > 1 then Some [] else None)"
  have ok0: "used_ok exts compound used0"
    by (simp add: used0_def used_ok_def)
  from extendCompound_options_plain [OF assms(3,2) subset_refl ok0, of P mctx compound 0 "[]" s]
  obtain options used s1 where L:
    "extendCompound_options A P exts mctx compound 0 compound [] used0 s = Returns (options, used) s1"
    "used_ok exts compound used" "(used0 = None) = (used = None)"
    "options \<noteq> [] \<longrightarrow> (\<exists>x\<in>set compound. x \<in> set (map fst exts)) \<and> used \<noteq> Some []"
    by blast
  have E: "extendCompound A P U compound exts mctx inOriginal s =
      (if options = [] then Returns [] s1
       else if (case used of None \<Rightarrow> False | Some u \<Rightarrow> length u \<noteq> length exts \<and> u \<noteq> [])
       then Returns [] s1
       else if length options = 1 then extendCompound_single A mctx (options ! 0) [] s1
       else extendCompound_paths A U mctx (permutate options) (mode s1 \<noteq> REPLACE) [] s1)"
    using assms(1) L(1) by (simp add: extendCompound_def used0_def)
  have opt: "options \<noteq> []"
    using assms(4,5) E by (auto split: if_splits)
  have chk: "\<not> (case used of None \<Rightarrow> False | Some u \<Rightarrow> length u \<noteq> length exts \<and> u \<noteq> [])"
    using assms(4,5) E opt by (auto split: if_splits)
  from L(4) opt obtain x where x: "x \<in> set compound" "x \<in> set (map fst exts)"
    and ne: "used \<noteq> Some []"
    by blast
  show ?thesis
  proof (cases "length exts > 1")
    case True
    with L(3) obtain u where u: "used = Some u"
      by (auto simp: used0_def)
    with ne chk have len: "length u = length exts" by auto
    from L(2) u have d: "distinct u" and sub: "set u \<subseteq> set (map fst exts) \<inter> set compound"
      by (simp_all add: used_ok_def)
    have "card (set (map fst exts)) \<le> length exts"
      using card_length [of "map fst exts"] by simp
    also have "\<dots> = card (set u)"
      using d len by (simp add: distinct_card)
    finally have "card (set (map fst exts)) \<le> card (set u)" .
    with sub have "set u = set (map fst exts)"
      by (intro card_seteq) auto
    with sub show ?thesis by auto
  next
    case False
    then have "length exts \<le> 1" by simp
    then have "exts = [] \<or> (\<exists>e. exts = [e])"
      by (cases exts) (auto simp: length_Suc_conv)
    with x show ?thesis by auto
  qed
qed


lemmas extend_eval = extendCompound_def extendSimple_def extendWithoutPseudo_def
  extensionForSimple_def extensionForCompound_def new_ComplexSelector_def wrapInComplex_def
  targets_insert_def permutate_def merged_first_def path_originals_def path_toUnify_def
  last_compound_def assertCompatibleMediaContext_def Extension_new_def maxSourceSpecificity_def
  one_off_def class_ops_def classes_def classes_of_def unify_classes_def not_of_def
  extendPseudo_not_example_def extenders_x_def targets_ab_def Let_def

theorem extendCompound_all_targets_used_witness:
  "mode (one_off TARGETS {1}) \<noteq> NORMAL
   \<and> list_all plain [Class_Selector ''a'', Class_Selector ''b'']
   \<and> plain_equality class_ops
   \<and> extendCompound class_ops extendPseudo_not_example unify_classes
        [Class_Selector ''a'', Class_Selector ''b''] targets_ab None False (one_off TARGETS {1})
       = Returns
           [ComplexSelectorObj 102 (ComplexSelector
              [CompoundSelector [Class_Selector ''a'', Class_Selector ''b'']] False),
            ComplexSelectorObj 103 (ComplexSelector
              [CompoundSelector [Class_Selector ''b'', Class_Selector ''x'']] False),
            ComplexSelectorObj 104 (ComplexSelector
              [CompoundSelector [Class_Selector ''a'', Class_Selector ''x'']] False),
            ComplexSelectorObj 105 (ComplexSelector
              [CompoundSelector [Class_Selector ''x'']] False)]
           ((one_off TARGETS {1})\<lparr>next_addr := 106\<rparr>)
   \<and> set (map fst targets_ab) \<subseteq> set [Class_Selector ''a'', Class_Selector ''b'']
   \<and> extendCompound class_ops extendPseudo_not_example unify_classes
        [Class_Selector ''a'', Class_Selector ''c''] targets_ab None False (one_off TARGETS {1})
       = Returns [] ((one_off TARGETS {1})\<lparr>next_addr := 102\<rparr>)"
proof -
  have m: "mode (one_off TARGETS {1}) \<noteq> NORMAL"
    by (simp add: one_off_def)
  have p: "list_all plain [Class_Selector ''a'', Class_Selector ''b'']"
    by simp
  have q: "plain_equality class_ops"
    by (simp add: plain_equality_def class_ops_def)
  have r: "extendCompound class_ops extendPseudo_not_example unify_classes
        [Class_Selector ''a'', Class_Selector ''b''] targets_ab None False (one_off TARGETS {1})
       = Returns
           [ComplexSelectorObj 102 (ComplexSelector
              [CompoundSelector [Class_Selector ''a'', Class_Selector ''b'']] False),
            ComplexSelectorObj 103 (ComplexSelector
              [CompoundSelector [Class_Selector ''b'', Class_Selector ''x'']] False),
            ComplexSelectorObj 104 (ComplexSelector
              [CompoundSelector [Class_Selector ''a'', Class_Selector ''x'']] False),
            ComplexSelectorObj 105 (ComplexSelector
              [CompoundSelector [Class_Selector ''x'']] False)]
           ((one_off TARGETS {1})\<lparr>next_addr := 106\<rparr>)"
    by (simp add: extend_eval)
  have e: "extendCompound class_ops extendPseudo_not_example unify_classes
        [Class_Selector ''a'', Class_Selector ''c''] targets_ab None False (one_off TARGETS {1})
       = Returns [] ((one_off TARGETS {1})\<lparr>next_addr := 102\<rparr>)"
    by (simp add: extend_eval)
  have k: "set (map fst targets_ab) \<subseteq> set [Class_Selector ''a'', Class_Selector ''b'']"
    by (rule extendCompound_all_targets_used [OF m p q r]) simp
  show ?thesis
    by (rule conjI [OF m conjI [OF p conjI [OF q conjI [OF r conjI [OF k e]]]]])
qed

text \<open>
  Claim C4 as stated fails for a pseudo selector with a selector list. In the call
  \<^verbatim>\<open>selector-extend(":not(.a.b)", ".a.b", ".x")\<close> the map has the two keys
  \<^verbatim>\<open>.a\<close> and \<^verbatim>\<open>.b\<close> and the mode is \<open>TARGETS\<close>; the compound \<^verbatim>\<open>:not(.a.b)\<close>
  has no simple selector that is a key, the set of targets used stays empty, and the
  test \<^verbatim>\<open>if (!targetsUsed->empty())\<close> lets the function go on: it returns
  \<^verbatim>\<open>:not(.a.b):not(.x)\<close>.
\<close>

theorem extendCompound_pseudo_counterexample:
  "extendCompound class_ops extendPseudo_not_example unify_classes [not_of [''a'', ''b'']]
      targets_ab None False (one_off TARGETS {1})
     = Returns
         [ComplexSelectorObj 102
            (ComplexSelector [CompoundSelector [not_of [''a'', ''b''], not_of [''x'']]] False)]
         ((one_off TARGETS {1})\<lparr>next_addr := 103\<rparr>)
   \<and> (case extendCompound_options class_ops extendPseudo_not_example targets_ab None
           [not_of [''a'', ''b'']] 0 [not_of [''a'', ''b'']] [] (Some []) (one_off TARGETS {1}) of
         Returns (options, used) s' \<Rightarrow> used = Some []
       | Throws e s' \<Rightarrow> False
       | Diverges \<Rightarrow> False)
   \<and> mode (one_off TARGETS {1}) \<noteq> NORMAL
   \<and> length targets_ab = 2
   \<and> \<not> set (map fst targets_ab) \<subseteq> set [not_of [''a'', ''b'']]"
  by (simp add: extend_eval)

section \<open>What extendComplex leaves alone\<close>

text \<open>
  The functions that \<^verbatim>\<open>extendComplex\<close> calls make selectors and selector lists and
  add to \<open>originals\<close>; they write to no map and to no selector list that exists.
\<close>

lemma frame_refl: "frame s s"
  by (simp add: frame_def same_maps_def keeps_lists_def)

lemma frame_trans: "frame s s1 \<Longrightarrow> frame s1 s2 \<Longrightarrow> frame s s2"
  by (simp add: frame_def same_maps_def keeps_lists_def)

lemma new_ComplexSelector_frame: "new_ComplexSelector c s = (obj, s') \<Longrightarrow> frame s s'"
  by (auto simp: new_ComplexSelector_def frame_def same_maps_def keeps_lists_def)

lemma extensionForSimple_frame: "extensionForSimple A simple s = (e, s') \<Longrightarrow> frame s s'"
  by (auto simp: extensionForSimple_def new_ComplexSelector_def frame_def same_maps_def keeps_lists_def)

lemma extensionForCompound_frame: "extensionForCompound simples s = (e, s') \<Longrightarrow> frame s s'"
  by (auto simp: extensionForCompound_def new_ComplexSelector_def frame_def same_maps_def keeps_lists_def)

lemma extendWithoutPseudo_frame:
  "extendWithoutPseudo A simple exts used s = (r, s') \<Longrightarrow> frame s s'"
  by (auto simp: extendWithoutPseudo_def extensionForSimple_def new_ComplexSelector_def
      frame_def same_maps_def keeps_lists_def split: option.splits if_splits)

lemma extendSimple_merge_frame:
  "extendSimple_merge A exts extended merged used s = (r, s') \<Longrightarrow> frame s s'"
proof (induction extended arbitrary: merged used s)
  case Nil
  then show ?case by (simp add: frame_def same_maps_def keeps_lists_def)
next
  case (Cons x extended)
  obtain result u s1 where w: "extendWithoutPseudo A x exts used s = ((result, u), s1)"
    by (cases "extendWithoutPseudo A x exts used s") auto
  obtain e s2 where f: "extensionForSimple A x s1 = (e, s2)"
    by (cases "extensionForSimple A x s1") auto
  from Cons.prems w f obtain m' s3 where
    rest: "extendSimple_merge A exts extended m' u s3 = (r, s')"
    and "s3 = s1 \<or> s3 = s2"
    by (auto simp: Let_def split: if_splits)
  with extendWithoutPseudo_frame [OF w] extensionForSimple_frame [OF f] Cons.IH [OF rest]
  show ?case by (auto simp: frame_def same_maps_def keeps_lists_def)
qed

lemma extendSimple_frame:
  assumes P: "\<forall>x e m s r s'. P x e m s = Returns r s' \<longrightarrow> frame s s'"
    and "extendSimple A P simple exts mctx used s = Returns r s'"
  shows "frame s s'"
proof -
  have without: "frame s0 s'"
    if "(let ((result, u), s1) = extendWithoutPseudo A simple exts used s0
         in if result = [] then Returns ([], u) s1 else Returns ([result], u) s1) = Returns r s'"
    for s0
  proof -
    obtain result u s1 where w: "extendWithoutPseudo A simple exts used s0 = ((result, u), s1)"
      by (cases "extendWithoutPseudo A simple exts used s0") auto
    with that have "s' = s1" by (auto split: if_splits)
    with extendWithoutPseudo_frame [OF w] show ?thesis by simp
  qed
  show ?thesis
  proof (cases "\<exists>n nn a sel. simple = Pseudo_Selector n nn a (Some sel)")
    case False
    with assms(2) have "(let ((result, u), s1) = extendWithoutPseudo A simple exts used s
         in if result = [] then Returns ([], u) s1 else Returns ([result], u) s1) = Returns r s'"
      by (auto simp: extendSimple_def Let_def split: SimpleSelector.splits option.splits)
    then show ?thesis by (rule without)
  next
    case True
    then obtain n nn a sel where simple: "simple = Pseudo_Selector n nn a (Some sel)" by blast
    from assms(2) simple obtain extended s1 where p: "P simple exts mctx s = Returns extended s1"
      by (cases "P simple exts mctx s") (auto simp: extendSimple_def Let_def)
    from P p have m1: "frame s s1" by blast
    show ?thesis
    proof (cases "extended = []")
      case True
      with assms(2) simple p have "(let ((result, u), s1') = extendWithoutPseudo A simple exts used s1
         in if result = [] then Returns ([], u) s1' else Returns ([result], u) s1') = Returns r s'"
        by (simp add: extendSimple_def Let_def)
      from without [OF this] m1 show ?thesis by (rule frame_trans [rotated])
    next
      case False
      obtain mu s2 where mg: "extendSimple_merge A exts extended [] used s1 = (mu, s2)"
        by (cases "extendSimple_merge A exts extended [] used s1") auto
      with assms(2) simple p False have "s' = s2"
        by (auto simp: extendSimple_def Let_def split: prod.splits)
      with extendSimple_merge_frame [OF mg] m1 show ?thesis by (auto simp: frame_def same_maps_def keeps_lists_def)
    qed
  qed
qed

lemma extendCompound_options_frame:
  assumes P: "\<forall>x e m s r s'. P x e m s = Returns r s' \<longrightarrow> frame s s'"
    and "extendCompound_options A P exts mctx compound i rest options used s = Returns r s'"
  shows "frame s s'"
  using assms(2)
proof (induction rest arbitrary: i options used s)
  case Nil
  then show ?case by (simp add: frame_def same_maps_def keeps_lists_def)
next
  case (Cons simple rest)
  from Cons.prems obtain extended u s1 where
    x: "extendSimple A P simple exts mctx used s = Returns (extended, u) s1"
    by (cases "extendSimple A P simple exts mctx used s") auto
  from extendSimple_frame [OF P x] have m1: "frame s s1" .
  obtain e2 s2 where f: "extensionForSimple A simple s1 = (e2, s2)"
    by (cases "extensionForSimple A simple s1") auto
  obtain e3 s3 where g: "extensionForCompound (take i compound) s1 = (e3, s3)"
    by (cases "extensionForCompound (take i compound) s1") auto
  from Cons.prems x f g obtain o' s4 where
    rest: "extendCompound_options A P exts mctx compound (i + 1) rest o' u s4 = Returns r s'"
    and "s4 = s1 \<or> s4 = s2 \<or> s4 = s3"
    by (auto simp: Let_def split: if_splits)
  with Cons.IH [OF rest] m1 extensionForSimple_frame [OF f] extensionForCompound_frame [OF g]
  show ?case by (auto simp: frame_def same_maps_def keeps_lists_def)
qed

lemma extendCompound_single_frame:
  "extendCompound_single A mctx exts result s = Returns r s' \<Longrightarrow> s' = s"
  by (induction exts arbitrary: result) (auto split: option.splits)

lemma new_selectors_frame:
  "new_selectors lineBreak complexes unified s = (r, s') \<Longrightarrow> frame s s'"
proof (induction complexes arbitrary: unified s)
  case Nil
  then show ?case by (simp add: frame_def same_maps_def keeps_lists_def)
next
  case (Cons c complexes)
  obtain sel s1 where n: "new_ComplexSelector (ComplexSelector c lineBreak) s = (sel, s1)"
    by (cases "new_ComplexSelector (ComplexSelector c lineBreak) s") auto
  with Cons.prems have "new_selectors lineBreak complexes (unified @ [sel]) s1 = (r, s')"
    by simp
  from Cons.IH [OF this] new_ComplexSelector_frame [OF n] show ?case
    by (rule frame_trans [rotated])
qed

lemma extendCompound_paths_frame:
  "extendCompound_paths A U mctx prePaths first unified s = Returns r s' \<Longrightarrow> frame s s'"
proof (induction prePaths arbitrary: first unified s)
  case Nil
  then show ?case by (simp add: frame_def same_maps_def keeps_lists_def)
next
  case (Cons path prePaths)
  let ?complexes = "(if first then [[CompoundSelector (merged_first path)]]
             else U ((if path_originals path \<noteq> []
                      then [[CompoundSelector (path_originals path)]] else [])
                     @ path_toUnify path))"
  show ?case
  proof (cases "?complexes = []")
    case True
    with Cons.prems have "s' = s" by (simp add: Let_def)
    then show ?thesis by (simp add: frame_def same_maps_def keeps_lists_def)
  next
    case False
    with Cons.prems obtain lineBreak where a: "assert_path A mctx path False = Inr lineBreak"
      by (cases "assert_path A mctx path False") (auto simp: Let_def)
    obtain unified' s1 where n: "new_selectors lineBreak ?complexes unified s = (unified', s1)"
      by (cases "new_selectors lineBreak ?complexes unified s") auto
    with Cons.prems False a have
      "extendCompound_paths A U mctx prePaths False unified' s1 = Returns r s'"
      by (simp add: Let_def)
    from Cons.IH [OF this] new_selectors_frame [OF n] show ?thesis
      by (rule frame_trans [rotated])
  qed
qed

lemma extendCompound_frame:
  assumes P: "\<forall>x e m s r s'. P x e m s = Returns r s' \<longrightarrow> frame s s'"
    and "extendCompound A P U compound exts mctx inOriginal s = Returns r s'"
  shows "frame s s'"
proof -
  let ?used = "(if mode s \<noteq> NORMAL \<and> length exts > 1 then Some [] else None)"
  from assms(2) obtain options u s1 where
    o: "extendCompound_options A P exts mctx compound 0 compound [] ?used s = Returns (options, u) s1"
    by (cases "extendCompound_options A P exts mctx compound 0 compound [] ?used s")
      (auto simp: extendCompound_def Let_def)
  from extendCompound_options_frame [OF P o] have m1: "frame s s1" .
  from assms(2) o have "s' = s1
      \<or> extendCompound_single A mctx (options ! 0) [] s1 = Returns r s'
      \<or> extendCompound_paths A U mctx (permutate options) (mode s1 \<noteq> REPLACE) [] s1 = Returns r s'"
    by (auto simp: extendCompound_def Let_def split: if_splits)
  then have "frame s1 s'"
  proof (elim disjE)
    assume "s' = s1"
    then show ?thesis by (simp add: frame_refl)
  next
    assume "extendCompound_single A mctx (options ! 0) [] s1 = Returns r s'"
    from extendCompound_single_frame [OF this] show ?thesis by (simp add: frame_refl)
  next
    assume "extendCompound_paths A U mctx (permutate options) (mode s1 \<noteq> REPLACE) [] s1
              = Returns r s'"
    then show ?thesis by (rule extendCompound_paths_frame)
  qed
  with m1 show ?thesis by (rule frame_trans)
qed

lemma wrap_components_frame:
  "wrap_components components wrapped s = (r, s') \<Longrightarrow> frame s s'"
proof (induction components arbitrary: wrapped s)
  case Nil
  then show ?case by (simp add: frame_def same_maps_def keeps_lists_def)
next
  case (Cons c components)
  obtain w s1 where n: "new_ComplexSelector (ComplexSelector [c] False) s = (w, s1)"
    by (cases "new_ComplexSelector (ComplexSelector [c] False) s") auto
  with Cons.prems have "wrap_components components (wrapped @ [[w]]) s1 = (r, s')" by simp
  from Cons.IH [OF this] new_ComplexSelector_frame [OF n] show ?case
    by (rule frame_trans [rotated])
qed

lemma extendComplex_components_frame:
  assumes P: "\<forall>x e m s r s'. P x e m s = Returns r s' \<longrightarrow> frame s s'"
    and "extendComplex_components A P U exts mctx isOrig components i rest ene s = Returns r s'"
  shows "frame s s'"
  using assms(2)
proof (induction rest arbitrary: i ene s)
  case Nil
  then show ?case by (simp add: frame_def same_maps_def keeps_lists_def)
next
  case (Cons component rest)
  show ?case
  proof (cases component)
    case (CompoundSelector compound)
    with Cons.prems obtain extended s1 where
      x: "extendCompound A P U compound exts mctx isOrig s = Returns extended s1"
      by (cases "extendCompound A P U compound exts mctx isOrig s") auto
    from extendCompound_frame [OF P x] have m1: "frame s s1" .
    obtain w s2 where n: "new_ComplexSelector (wrapInComplex compound) s1 = (w, s2)"
      by (cases "new_ComplexSelector (wrapInComplex compound) s1") auto
    obtain ws s3 where wc: "wrap_components (take i components) [] s1 = (ws, s3)"
      by (cases "wrap_components (take i components) [] s1") auto
    from Cons.prems CompoundSelector x n wc obtain ene' s4 where
      rest: "extendComplex_components A P U exts mctx isOrig components (i + 1) rest ene' s4
               = Returns r s'"
      and "s4 = s1 \<or> s4 = s2 \<or> s4 = s3"
      by (auto simp: Let_def split: if_splits)
    with Cons.IH [OF rest] m1 new_ComplexSelector_frame [OF n] wrap_components_frame [OF wc]
    show ?thesis by (auto simp: frame_def same_maps_def keeps_lists_def)
  next
    case (SelectorCombinator c)
    obtain w s1 where n: "new_ComplexSelector (ComplexSelector [component] False) s = (w, s1)"
      by (cases "new_ComplexSelector (ComplexSelector [component] False) s") auto
    from Cons.prems SelectorCombinator n obtain ene' s4 where
      rest: "extendComplex_components A P U exts mctx isOrig components (i + 1) rest ene' s4
               = Returns r s'"
      and "s4 = s \<or> s4 = s1"
      by (auto simp: Let_def split: if_splits)
    with Cons.IH [OF rest] new_ComplexSelector_frame [OF n]
    show ?thesis by (auto simp: frame_def same_maps_def keeps_lists_def)
  qed
qed

lemma extendComplex_weaved_frame:
  "extendComplex_weaved complex lineFeed weaved first result s = (r, s') \<Longrightarrow> frame s s'"
proof (induction weaved arbitrary: first result s)
  case Nil
  then show ?case by (simp add: frame_def same_maps_def keeps_lists_def)
next
  case (Cons components weaved)
  obtain cplx s1 where n: "new_ComplexSelector (ComplexSelector components lineFeed) s = (cplx, s1)"
    by (cases "new_ComplexSelector (ComplexSelector components lineFeed) s") auto
  with Cons.prems obtain s2 where
    rest: "extendComplex_weaved complex lineFeed weaved False (result @ [cplx]) s2 = (r, s')"
    and "frame s1 s2"
    by (auto simp: Let_def frame_def same_maps_def keeps_lists_def split: if_splits)
  with Cons.IH [OF rest] new_ComplexSelector_frame [OF n] show ?case
    by (auto simp: frame_def same_maps_def keeps_lists_def)
qed

lemma extendComplex_paths_frame:
  "extendComplex_paths W complex ps first result s = (r, s') \<Longrightarrow> frame s s'"
proof (induction ps arbitrary: first result s)
  case Nil
  then show ?case by (simp add: frame_def same_maps_def keeps_lists_def)
next
  case (Cons path ps)
  let ?lf = "(hasPreLineFeed (deref complex) \<or> list_ex (\<lambda>pp. hasPreLineFeed (deref pp)) path)"
  obtain first' result' s1 where
    w: "extendComplex_weaved complex ?lf (W (map (\<lambda>sel. elements (deref sel)) path)) first result s
          = ((first', result'), s1)"
    by (cases "extendComplex_weaved complex ?lf (W (map (\<lambda>sel. elements (deref sel)) path))
          first result s") auto
  with Cons.prems have "extendComplex_paths W complex ps first' result' s1 = (r, s')"
    by (simp add: Let_def)
  from Cons.IH [OF this] extendComplex_weaved_frame [OF w] show ?case
    by (rule frame_trans [rotated])
qed

lemma extendComplex_frame:
  assumes P: "\<forall>x e m s r s'. P x e m s = Returns r s' \<longrightarrow> frame s s'"
    and "extendComplex A P U W complex exts mctx s = Returns r s'"
  shows "frame s s'"
proof -
  let ?c = "elements (deref complex)"
  from assms(2) obtain ene s1 where
    c: "extendComplex_components A P U exts mctx (addr complex \<in> originals s) ?c 0 ?c [] s
          = Returns ene s1"
    by (cases "extendComplex_components A P U exts mctx (addr complex \<in> originals s) ?c 0 ?c [] s")
      (auto simp: extendComplex_def Let_def)
  from extendComplex_components_frame [OF P c] have m1: "frame s s1" .
  obtain result s2 where p: "extendComplex_paths W complex (permutate ene) True [] s1 = (result, s2)"
    by (cases "extendComplex_paths W complex (permutate ene) True [] s1") auto
  from assms(2) c p have "s' = s1 \<or> s' = s2"
    by (auto simp: extendComplex_def Let_def split: if_splits)
  with m1 extendComplex_paths_frame [OF p] show ?thesis by (auto simp: frame_def same_maps_def keeps_lists_def)
qed

lemma nested_objects_frame: "nested_objects sel objs s = (r, s') \<Longrightarrow> frame s s'"
proof (induction sel arbitrary: objs s)
  case Nil
  then show ?case by (simp add: frame_def same_maps_def keeps_lists_def)
next
  case (Cons c sel)
  obtain obj s1 where n: "new_ComplexSelector c s = (obj, s1)"
    by (cases "new_ComplexSelector c s") auto
  with Cons.prems have "nested_objects sel (objs @ [obj]) s1 = (r, s')" by simp
  from Cons.IH [OF this] new_ComplexSelector_frame [OF n] show ?case
    by (rule frame_trans [rotated])
qed

lemma nested_list_frame: "nested_list sel s = (r, s') \<Longrightarrow> frame s s'"
proof -
  assume a: "nested_list sel s = (r, s')"
  obtain objs s1 where n: "nested_objects sel [] s = (objs, s1)"
    by (cases "nested_objects sel [] s") auto
  with a have "frame s1 s'" by (auto simp: nested_list_def frame_def same_maps_def keeps_lists_def)
  with nested_objects_frame [OF n] show ?thesis by (rule frame_trans)
qed

lemma extendList_loop_frame:
  assumes "\<forall>c e m s r s'. X c e m s = Returns r s' \<longrightarrow> frame s s'"
    and "extendList_loop X exts mctx elems i rest extended s = Returns r s'"
  shows "frame s s'"
  using assms(2)
proof (induction rest arbitrary: i extended s)
  case Nil
  then show ?case by (simp add: frame_refl)
next
  case (Cons complex rest)
  from Cons.prems obtain result s1 where x: "X complex exts mctx s = Returns result s1"
    by (cases "X complex exts mctx s") simp_all
  with Cons.prems obtain ext' where
    "extendList_loop X exts mctx elems (i + 1) rest ext' s1 = Returns r s'"
    by (simp split: if_splits)
  from Cons.IH [OF this] assms(1) x show ?case
    using frame_trans by blast
qed

lemma extendList_frame:
  assumes "\<forall>c e m s r s'. X c e m s = Returns r s' \<longrightarrow> frame s s'"
    and "extendList fuel A X list exts mctx s = Returns r s'"
  shows "frame s s'"
proof -
  from assms(2) obtain extended s1 where
    l: "extendList_loop X exts mctx (lists s list) 0 (lists s list) [] s = Returns extended s1"
    by (cases "extendList_loop X exts mctx (lists s list) 0 (lists s list) [] s")
      (simp_all add: extendList_def)
  from extendList_loop_frame [OF assms(1) l] have "frame s s1" .
  moreover from assms(2) l have "frame s1 s'"
    by (auto simp: extendList_def frame_def same_maps_def keeps_lists_def
        split: if_splits option.splits)
  ultimately show ?thesis by (rule frame_trans)
qed

lemma extendPseudo_frame:
  assumes "\<forall>c e m s r s'. X c e m s = Returns r s' \<longrightarrow> frame s s'"
    and "extendPseudo fuel A X pseudo exts mctx s = Returns r s'"
  shows "frame s s'"
proof -
  from assms(2) obtain n nn a sel where pseudo: "pseudo = Pseudo_Selector n nn a (Some sel)"
    by (cases pseudo; cases "selector pseudo") (auto simp: extendPseudo_def)
  obtain list s0 where l: "nested_list sel s = (list, s0)"
    by (cases "nested_list sel s") auto
  from assms(2) pseudo l obtain ext s1 where
    e: "extendList fuel A X list exts mctx s0 = Returns ext s1"
    by (cases "extendList fuel A X list exts mctx s0") (auto simp: extendPseudo_def)
  from assms(2) pseudo l e have "s' = s1"
    by (auto simp: extendPseudo_def Let_def split: if_splits)
  with nested_list_frame [OF l] extendList_frame [OF assms(1) e] show ?thesis
    by (auto simp: frame_def same_maps_def keeps_lists_def)
qed

lemma extendComplex_rec_frame:
  "\<forall>c e m s r s'. extendComplex_rec depth fuel A U W c e m s = Returns r s' \<longrightarrow> frame s s'"
proof (induction depth)
  case 0
  show ?case by simp
next
  case (Suc depth)
  have "\<forall>x e m s r s'.
          extendPseudo fuel A (extendComplex_rec depth fuel A U W) x e m s = Returns r s'
            \<longrightarrow> frame s s'"
    using extendPseudo_frame [OF Suc] by blast
  from extendComplex_frame [OF this] show ?case
    by auto
qed

lemma extendComplex_rec_maps: "writes_no_map (extendComplex_rec depth fuel A U W)"
  using extendComplex_rec_frame [of depth fuel A U W]
  by (auto simp: writes_no_map_def frame_def)

lemma extendComplex_rec_lists: "writes_no_list (extendComplex_rec depth fuel A U W)"
  using extendComplex_rec_frame [of depth fuel A U W]
  by (auto simp: writes_no_list_def frame_def)

text \<open>The definitions that the examples of the extender evaluate.\<close>

lemmas knot_eval = extendCompound_def extendSimple_def extendWithoutPseudo_def
  extensionForSimple_def extensionForCompound_def new_ComplexSelector_def wrapInComplex_def
  targets_insert_def permutate_def merged_first_def path_originals_def path_toUnify_def
  last_compound_def assertCompatibleMediaContext_def Extension_new_def maxSourceSpecificity_def
  class_ops_def classes_def classes_of_def unify_classes_def not_of_def Let_def
  addExtension_def addExtension_keeps_def extendList_def extendComplex_def extendPseudo_def
  nested_list_def expand_def
  hasAny_def hasSubAny_def hasExactlyOne_def hasMoreThanOne_def extendPseudoComplex_def
  extendPseudoComplex_chain_def guard_matches_def guard_has_def trim_def dontTrimComplex_def
  maxSpecificity_of_def maxSourceSpecificity_compound_def mergeExtension_def withExtender_def
  push_extension_def source_specificity_add_def compound_simples_def touch_entry_def has_key_def
  entry_or_default_def complexKey_def present_def weave_single_def a_not_a_def extends_z_def
  a_not_d_def extends_z_not_d_def one_off_def
  count_entries_def registerSelector_def add_rule_def mapCopyExts_def numeral_3_eq_3
  find_duplicate.simps rotateSlice_def rotateSlice_loop.simps


section \<open>extendList without a match\<close>

lemma extendList_loop_calls:
  "extendList_calls X exts mctx rest s = Some s' \<Longrightarrow>
   extendList_loop X exts mctx elems i rest [] s = Returns [] s'"
proof (induction rest arbitrary: i s)
  case Nil
  then show ?case by simp
next
  case (Cons complex rest)
  from Cons.prems obtain s1 where x: "X complex exts mctx s = Returns [] s1"
    and rest: "extendList_calls X exts mctx rest s1 = Some s'"
    by (cases "X complex exts mctx s") (auto split: if_splits)
  from Cons.IH [OF rest, of "i + 1"] x show ?case by simp
qed

lemma keeps_lists_refl: "keeps_lists s s"
  by (simp add: keeps_lists_def)

lemma keeps_lists_trans: "keeps_lists s s1 \<Longrightarrow> keeps_lists s1 s2 \<Longrightarrow> keeps_lists s s2"
  by (auto simp: keeps_lists_def)

lemma extendList_calls_lists:
  assumes "writes_no_list X"
    and "extendList_calls X exts mctx rest s = Some s'"
  shows "keeps_lists s s'"
  using assms(2)
proof (induction rest arbitrary: s)
  case Nil
  then show ?case by (simp add: keeps_lists_refl)
next
  case (Cons complex rest)
  from Cons.prems obtain s1 where x: "X complex exts mctx s = Returns [] s1"
    and rest: "extendList_calls X exts mctx rest s1 = Some s'"
    by (cases "X complex exts mctx s") (auto split: if_splits)
  from assms(1) x have "keeps_lists s s1"
    unfolding writes_no_list_def by blast
  with Cons.IH [OF rest] show ?case by (rule keeps_lists_trans [rotated])
qed

text \<open>
  Claim C3. If every call of \<^verbatim>\<open>extendComplex\<close> that \<^verbatim>\<open>extendList\<close> makes for the
  selectors of the list returns the empty result (the calls are made one after the
  other, each in the state that the one before left, and \<open>s'\<close> is the state after the
  last), then \<^verbatim>\<open>extendList\<close> returns the list it was given, in the state \<open>s'\<close>: the loop
  ends with \<open>extended\<close> empty, no list is made and \<^verbatim>\<open>trim\<close> is not called (the
  result is the same for every \<open>fuel\<close>, also for none). The list has the elements
  it had, since \<^verbatim>\<open>extendList\<close> writes nothing and \<^verbatim>\<open>extendComplex\<close> writes to no
  selector list that exists, the list being one of them.
\<close>

theorem extendList_unchanged:
  assumes "extendList_calls X exts mctx (lists s list) s = Some s'"
  shows "extendList fuel A X list exts mctx s = Returns list s'
         \<and> (writes_no_list X \<and> list < next_addr s \<longrightarrow> lists s' list = lists s list)"
proof -
  from extendList_loop_calls [OF assms]
  have "extendList_loop X exts mctx (lists s list) 0 (lists s list) [] s = Returns [] s'" .
  then have "extendList fuel A X list exts mctx s = Returns list s'"
    by (simp add: extendList_def)
  moreover have "lists s' list = lists s list" if "writes_no_list X" and "list < next_addr s"
    using extendList_calls_lists [OF that(1) assms] that(2) by (simp add: keeps_lists_def)
  ultimately show ?thesis by blast
qed

text \<open>
  In the mode \<open>TARGETS\<close>, with the targets \<^verbatim>\<open>.a\<close> and \<^verbatim>\<open>.b\<close>, the list \<^verbatim>\<open>.a.c\<close>
  is returned as it is: \<^verbatim>\<open>extendComplex\<close> returns nothing for \<^verbatim>\<open>.a.c\<close>, one target
  only being used. In the mode \<open>NORMAL\<close> the same call returns \<^verbatim>\<open>.a.c, .c.x\<close>.
\<close>

lemma targets_rule_calls:
  "(case extendList_calls (extendComplex_rec 3 5 class_ops unify_classes weave_single) targets_ab
           None (lists targets_rule 1) targets_rule of
      Some s' \<Rightarrow> True
    | None \<Rightarrow> False)"
  by (simp add: knot_eval targets_rule_def targets_ab_def extenders_x_def)

lemma normal_mode:
  "(case extendComplex_rec 3 5 class_ops unify_classes weave_single (classes 10 [''a'', ''c''])
           targets_ab None (targets_rule\<lparr>mode := NORMAL\<rparr>) of
      Returns result s' \<Rightarrow> map deref result = map deref [classes 0 [''a'', ''c''], classes 0 [''c'', ''x'']]
    | Throws e s' \<Rightarrow> False
    | Diverges \<Rightarrow> False)"
  by (simp add: knot_eval targets_rule_def targets_ab_def extenders_x_def)

theorem extendList_unchanged_witness:
  "\<exists>s'. extendList_calls (extendComplex_rec 3 5 class_ops unify_classes weave_single) targets_ab
           None (lists targets_rule 1) targets_rule = Some s'
       \<and> writes_no_list (extendComplex_rec 3 5 class_ops unify_classes weave_single)
       \<and> 1 < next_addr targets_rule
       \<and> extendList 0 class_ops (extendComplex_rec 3 5 class_ops unify_classes weave_single) 1
             targets_ab None targets_rule = Returns 1 s'
       \<and> lists s' 1 = [classes 10 [''a'', ''c'']]"
proof -
  let ?X = "extendComplex_rec 3 5 class_ops unify_classes weave_single"
  from targets_rule_calls obtain s' where
    calls: "extendList_calls ?X targets_ab None (lists targets_rule 1) targets_rule = Some s'"
    by (cases "extendList_calls ?X targets_ab None (lists targets_rule 1) targets_rule") simp_all
  have X: "writes_no_list ?X" by (rule extendComplex_rec_lists)
  have obj: "1 < next_addr targets_rule" by (simp add: targets_rule_def)
  from extendList_unchanged [OF calls, of 0 class_ops] X obj
  have "extendList 0 class_ops ?X 1 targets_ab None targets_rule = Returns 1 s'"
    and "lists s' 1 = lists targets_rule 1"
    by simp_all
  moreover have "lists targets_rule 1 = [classes 10 [''a'', ''c'']]"
    by (simp add: targets_rule_def)
  ultimately show ?thesis using calls X obj by auto
qed

section \<open>addExtension, called twice\<close>

subsection \<open>The maps\<close>

lemma has_key_insert:
  "has_key eq m k' \<Longrightarrow> has_key eq (insert_entry eq k v m) k'"
  by (induction m) (auto simp: has_key_def)

lemma has_key_insert_self:
  "eq k k \<Longrightarrow> has_key eq (insert_entry eq k v m) k"
  by (induction m) (auto simp: has_key_def)

lemma find_insert_same:
  "has_key eq m k \<Longrightarrow> find_entry eq (insert_entry eq k v m) k = Some v"
  by (induction m) (auto simp: has_key_def)

lemma find_insert_cases:
  "find_entry eq (insert_entry eq k v m) k' = Some w \<Longrightarrow>
     find_entry eq m k' = Some w \<or> (w = v \<and> find_entry eq m k' = find_entry eq m k)"
  by (induction m) (auto split: if_splits)

lemma touch_has_key: "has_key eq m k \<Longrightarrow> touch_entry eq d k m = m"
  by (simp add: touch_entry_def)

lemma find_append:
  "find_entry eq (m @ m') k = (case find_entry eq m k of None \<Rightarrow> find_entry eq m' k | Some v \<Rightarrow> Some v)"
  by (induction m) auto

lemma has_key_touch: "has_key eq m k' \<Longrightarrow> has_key eq (touch_entry eq d k m) k'"
  by (auto simp: touch_entry_def has_key_def find_append split: option.splits)

lemma has_key_touch_self: "eq k k \<Longrightarrow> has_key eq (touch_entry eq d k m) k"
  by (auto simp: touch_entry_def has_key_def find_append split: option.splits)

lemma entry_touch:
  "entry_or_default eq [] (touch_entry eq [] k m) k' = entry_or_default eq [] m k'"
  by (auto simp: touch_entry_def entry_or_default_def find_append split: option.splits)

lemma present_touch: "present A m tgt c \<Longrightarrow> present A (touch_entry (equalSimple A) [] t m) tgt c"
  by (auto simp: present_def touch_entry_def find_append split: option.splits)

lemma present_has_key: "present A m tgt c \<Longrightarrow> has_key (equalSimple A) m tgt"
  by (auto simp: present_def has_key_def split: option.splits)

lemma present_entry:
  "present A m tgt c \<longleftrightarrow> has_key (complexKey A) (entry_or_default (equalSimple A) [] m tgt) c"
  by (auto simp: present_def entry_or_default_def has_key_def split: option.splits)

lemma present_insert:
  assumes "present A m tgt c"
  shows "present A (insert_entry (equalSimple A) t
           (insert_entry (complexKey A) c' v (entry_or_default (equalSimple A) [] m t)) m) tgt c"
proof -
  let ?new = "insert_entry (complexKey A) c' v (entry_or_default (equalSimple A) [] m t)"
  let ?m' = "insert_entry (equalSimple A) t ?new m"
  from assms obtain old where old: "find_entry (equalSimple A) m tgt = Some old"
    and key: "has_key (complexKey A) old c"
    by (auto simp: present_def split: option.splits)
  from old have "has_key (equalSimple A) m tgt" by (simp add: has_key_def)
  then have "has_key (equalSimple A) ?m' tgt" by (rule has_key_insert)
  then obtain w where w: "find_entry (equalSimple A) ?m' tgt = Some w"
    by (auto simp: has_key_def)
  from find_insert_cases [OF w]
  have "has_key (complexKey A) w c"
  proof
    assume "find_entry (equalSimple A) m tgt = Some w"
    with old key show ?thesis by simp
  next
    assume a: "w = ?new \<and> find_entry (equalSimple A) m tgt = find_entry (equalSimple A) m t"
    with old have "entry_or_default (equalSimple A) [] m t = old"
      by (simp add: entry_or_default_def)
    with a key show ?thesis by (simp add: has_key_insert)
  qed
  with w show ?thesis by (simp add: present_def)
qed

lemma present_insert_self:
  assumes "has_key (equalSimple A) m tgt" and "equalComplex A (deref c) (deref c)"
  shows "present A (insert_entry (equalSimple A) tgt
           (insert_entry (complexKey A) c v (entry_or_default (equalSimple A) [] m tgt)) m) tgt c"
  using assms by (simp add: present_def find_insert_same has_key_insert_self complexKey_def)

subsection \<open>The extensions by extender\<close>

lemma count_push:
  "count_entries (push_extension A st m simple) = Suc (count_entries m)"
  unfolding push_extension_def entry_or_default_def
  by (induction m) (auto simp: count_entries_def)

lemma count_foldl_push:
  "count_entries (foldl (push_extension A st) m simples) = count_entries m + length simples"
  by (induction simples arbitrary: m) (auto simp: count_push)

subsection \<open>A call that finds every extender\<close>

lemma addExtension_loop_skip:
  "\<forall>c \<in> set xs. present A (extensions s) tgt c \<Longrightarrow>
   addExtension_loop A tgt opt mctx hr he xs new s = (new, s)"
  by (induction xs arbitrary: new) (auto simp: present_entry)

lemma addExtension_skip:
  assumes "has_key (equalSimple A) (extensions s) tgt"
    and "\<forall>c \<in> set xs. present A (extensions s) tgt c"
  shows "addExtension fuel A X xs tgt opt mctx s = Returns () s"
  using assms by (simp add: addExtension_def touch_has_key addExtension_loop_skip)

subsection \<open>The loop of addExtension\<close>

lemma addExtension_loop_present:
  assumes "has_key (equalSimple A) (extensions s) tgt" and "\<forall>c. equalComplex A c c"
    and "addExtension_loop A tgt opt mctx hr he xs new s = (new', s')"
  shows "(\<forall>c \<in> set xs. present A (extensions s') tgt c)
         \<and> (\<forall>c. present A (extensions s) tgt c \<longrightarrow> present A (extensions s') tgt c)
         \<and> has_key (equalSimple A) (extensions s') tgt"
  using assms
proof (induction xs arbitrary: new s)
  case Nil
  then show ?case by simp
next
  case (Cons c xs)
  let ?sources = "entry_or_default (equalSimple A) [] (extensions s) tgt"
  show ?case
  proof (cases "has_key (complexKey A) ?sources c")
    case True
    with Cons.prems have loop: "addExtension_loop A tgt opt mctx hr he xs new s = (new', s')"
      by simp
    from Cons.IH [OF Cons.prems(1,2) loop] True show ?thesis
      by (simp add: present_entry)
  next
    case False
    let ?state = "Extension c (Some tgt) 0 opt False mctx"
    let ?s = "s\<lparr>extensions :=
                  insert_entry (equalSimple A) tgt
                    (insert_entry (complexKey A) c ?state ?sources) (extensions s),
                extensionsByExtender :=
                  foldl (push_extension A ?state) (extensionsByExtender s)
                    (compound_simples (deref c)),
                sourceSpecificity :=
                  foldl (source_specificity_add A c) (sourceSpecificity s)
                    (compound_simples (deref c))\<rparr>"
    from False Cons.prems obtain new0 where
      loop: "addExtension_loop A tgt opt mctx hr he xs new0 ?s = (new', s')"
      by (simp add: Let_def)
    have k: "has_key (equalSimple A) (extensions ?s) tgt"
      using Cons.prems(1) by (simp add: has_key_insert)
    have c: "present A (extensions ?s) tgt c"
      using Cons.prems(1,2) by (simp add: present_insert_self)
    have mono: "present A (extensions s) tgt c' \<Longrightarrow> present A (extensions ?s) tgt c'" for c'
      by (simp add: present_insert)
    from Cons.IH [OF k Cons.prems(2) loop] c mono show ?thesis by simp
  qed
qed

lemma addExtension_loop_frame:
  "addExtension_loop A tgt opt mctx hr he xs new s = (new', s') \<Longrightarrow>
   mode s' = mode s \<and> selectors s' = selectors s
   \<and> count_entries (extensionsByExtender s) \<le> count_entries (extensionsByExtender s')"
proof (induction xs arbitrary: new s)
  case Nil
  then show ?case by simp
next
  case (Cons c xs)
  show ?case
  proof (cases "has_key (complexKey A) (entry_or_default (equalSimple A) [] (extensions s) tgt) c")
    case True
    with Cons.prems have "addExtension_loop A tgt opt mctx hr he xs new s = (new', s')" by simp
    from Cons.IH [OF this] show ?thesis .
  next
    case False
    with Cons.prems obtain new0 s0 where
      loop: "addExtension_loop A tgt opt mctx hr he xs new0 s0 = (new', s')"
      and "mode s0 = mode s" "selectors s0 = selectors s"
      and "extensionsByExtender s0 = foldl (push_extension A (Extension c (Some tgt) 0 opt False mctx))
              (extensionsByExtender s) (compound_simples (deref c))"
      by (simp add: Let_def)
    with Cons.IH [OF loop] show ?thesis by (simp add: count_foldl_push)
  qed
qed

lemma addExtension_loop_grows:
  assumes "addExtension_loop A tgt opt mctx hr he xs new s = (new', s')"
    and "\<exists>c \<in> set xs. \<not> present A (extensions s) tgt c"
    and "\<forall>c \<in> set xs. compound_simples (deref c) \<noteq> []"
  shows "count_entries (extensionsByExtender s) < count_entries (extensionsByExtender s')"
  using assms
proof (induction xs arbitrary: new s)
  case Nil
  then show ?case by simp
next
  case (Cons c xs)
  show ?case
  proof (cases "has_key (complexKey A) (entry_or_default (equalSimple A) [] (extensions s) tgt) c")
    case True
    with Cons.prems(1) have loop: "addExtension_loop A tgt opt mctx hr he xs new s = (new', s')"
      by simp
    from True Cons.prems(2) have "\<exists>c \<in> set xs. \<not> present A (extensions s) tgt c"
      by (auto simp: present_entry)
    from Cons.IH [OF loop this] Cons.prems(3) show ?thesis by simp
  next
    case False
    with Cons.prems(1) obtain new0 s0 where
      loop: "addExtension_loop A tgt opt mctx hr he xs new0 s0 = (new', s')"
      and e: "extensionsByExtender s0 = foldl (push_extension A (Extension c (Some tgt) 0 opt False mctx))
              (extensionsByExtender s) (compound_simples (deref c))"
      by (simp add: Let_def)
    from addExtension_loop_frame [OF loop]
    have "count_entries (extensionsByExtender s0) \<le> count_entries (extensionsByExtender s')"
      by simp
    moreover have "count_entries (extensionsByExtender s0)
        = count_entries (extensionsByExtender s) + length (compound_simples (deref c))"
      by (simp add: e count_foldl_push)
    moreover have "0 < length (compound_simples (deref c))"
      using Cons.prems(3) by simp
    ultimately show ?thesis by linarith
  qed
qed

subsection \<open>extendExistingExtensions\<close>

lemma extendExisting_inner_props:
  "extendExisting_inner A ext t newExts ce first sels add s = (add', s') \<Longrightarrow>
   (\<forall>tgt c. present A (extensions s) tgt c \<longrightarrow> present A (extensions s') tgt c)
   \<and> mode s' = mode s \<and> selectors s' = selectors s
   \<and> count_entries (extensionsByExtender s) \<le> count_entries (extensionsByExtender s')"
proof (induction sels arbitrary: first add s)
  case Nil
  then show ?case by simp
next
  case (Cons complex rest)
  show ?case
  proof (cases "ce \<and> first")
    case True
    with Cons.prems have
      "extendExisting_inner A ext t newExts ce False rest add s = (add', s')" by simp
    from Cons.IH [OF this] show ?thesis .
  next
    case False
    then have nf: "(ce \<and> first) = False" by simp
    let ?sources = "entry_or_default (equalSimple A) [] (extensions s) t"
    show ?thesis
    proof (cases "has_key (complexKey A) ?sources complex")
      case True
      let ?s = "s\<lparr>extensions :=
                     insert_entry (equalSimple A) t
                       (insert_entry (complexKey A) complex
                          (mergeExtension
                             (the (find_entry (complexKey A) ?sources complex))
                             (withExtender ext complex))
                          ?sources)
                       (extensions s)\<rparr>"
      from True Cons.prems have
        loop: "extendExisting_inner A ext t newExts ce first rest add ?s = (add', s')"
        by (simp add: nf Let_def)
      from Cons.IH [OF loop] show ?thesis by (simp add: present_insert)
    next
      case False
      with Cons.prems obtain add0 s0 where
        loop: "extendExisting_inner A ext t newExts ce first rest add0 s0 = (add', s')"
        and "mode s0 = mode s" "selectors s0 = selectors s"
        and e: "extensions s0 = insert_entry (equalSimple A) t
                       (insert_entry (complexKey A) complex (withExtender ext complex) ?sources)
                       (extensions s)"
        and b: "extensionsByExtender s0 =
                     foldl (push_extension A (withExtender ext complex)) (extensionsByExtender s)
                       (compound_simples (deref complex))"
        by (simp add: nf Let_def)
      with Cons.IH [OF loop] show ?thesis by (simp add: present_insert count_foldl_push)
    qed
  qed
qed

lemma writes_no_mapD:
  "writes_no_map X \<Longrightarrow> X complex exts mctx s = Returns result s' \<Longrightarrow>
   mode s' = mode s \<and> extensions s' = extensions s
   \<and> extensionsByExtender s' = extensionsByExtender s"
  unfolding writes_no_map_def same_maps_def by blast

lemma extendExistingExtensions_count:
  assumes "writes_no_map X"
    and "extendExistingExtensions A X old newExts add s = Returns add' s'"
  shows "count_entries (extensionsByExtender s) \<le> count_entries (extensionsByExtender s')"
  using assms
proof (induction old arbitrary: add s)
  case Nil
  then show ?case by simp
next
  case (Cons ext old)
  from Cons.prems(2) obtain t where t: "target ext = Some t"
    by (cases "target ext") simp_all
  let ?s0 = "s\<lparr>extensions := touch_entry (equalSimple A) [] t (extensions s)\<rparr>"
  from Cons.prems(2) t obtain sels s1 where
    x: "X (extender ext) newExts (mediaContext ext) ?s0 = Returns sels s1"
    by (cases "X (extender ext) newExts (mediaContext ext) ?s0") (simp_all add: Let_def)
  from writes_no_mapD [OF Cons.prems(1) x]
  have b1: "extensionsByExtender s1 = extensionsByExtender s" by simp
  show ?case
  proof (cases "sels = []")
    case True
    with Cons.prems(2) t x have "extendExistingExtensions A X old newExts add s1 = Returns add' s'"
      by (simp add: Let_def)
    from Cons.IH [OF Cons.prems(1) this] b1 show ?thesis by simp
  next
    case False
    obtain add2 s2 where inner:
      "extendExisting_inner A ext t newExts
         (equalComplex A (deref (hd sels)) (deref (extender ext))) False sels add s1 = (add2, s2)"
      by (cases "extendExisting_inner A ext t newExts
         (equalComplex A (deref (hd sels)) (deref (extender ext))) False sels add s1") blast
    with False Cons.prems(2) t x obtain s3 where
      rest: "extendExistingExtensions A X old newExts add2 s3 = Returns add' s'"
      and "extensionsByExtender s3 = extensionsByExtender s2"
      by (simp add: Let_def split: if_splits)
    with Cons.IH [OF Cons.prems(1) rest] extendExisting_inner_props [OF inner] b1
    show ?thesis by simp
  qed
qed

lemma extendExistingExtensions_kept:
  assumes "writes_no_map X"
    and "extendExisting_kept A X old newExts add s"
    and "extendExistingExtensions A X old newExts add s = Returns add' s'"
  shows "\<forall>tgt c. present A (extensions s) tgt c \<longrightarrow> present A (extensions s') tgt c"
  using assms(2,3)
proof (induction old arbitrary: add s)
  case Nil
  then show ?case by simp
next
  case (Cons ext old)
  from Cons.prems(2) obtain t where t: "target ext = Some t"
    by (cases "target ext") simp_all
  let ?s0 = "s\<lparr>extensions := touch_entry (equalSimple A) [] t (extensions s)\<rparr>"
  from Cons.prems(2) t obtain sels s1 where
    x: "X (extender ext) newExts (mediaContext ext) ?s0 = Returns sels s1"
    by (cases "X (extender ext) newExts (mediaContext ext) ?s0") (simp_all add: Let_def)
  from writes_no_mapD [OF assms(1) x]
  have f1: "extensions s1 = touch_entry (equalSimple A) [] t (extensions s)"
    by simp
  have p1: "present A (extensions s) tgt c \<Longrightarrow> present A (extensions s1) tgt c" for tgt c
    by (simp add: f1 present_touch)
  show ?case
  proof (cases "sels = []")
    case True
    with Cons.prems t x
    have "extendExisting_kept A X old newExts add s1"
      and "extendExistingExtensions A X old newExts add s1 = Returns add' s'"
      by (simp_all add: Let_def)
    from Cons.IH [OF this] p1 show ?thesis by simp
  next
    case False
    obtain add2 s2 where inner:
      "extendExisting_inner A ext t newExts True False sels add s1 = (add2, s2)"
      by (cases "extendExisting_inner A ext t newExts True False sels add s1") blast
    from Cons.prems(1) t x False inner
    have ce: "equalComplex A (deref (hd sels)) (deref (extender ext))"
      and kept: "extendExisting_kept A X old newExts add2 s2"
      by (simp_all add: Let_def)
    from Cons.prems(2) t x False inner ce have
      rest: "extendExistingExtensions A X old newExts add2 s2 = Returns add' s'"
      by (simp add: Let_def)
    from extendExisting_inner_props [OF inner]
    have p2: "present A (extensions s1) tgt c \<Longrightarrow> present A (extensions s2) tgt c" for tgt c
      by simp
    from Cons.IH [OF kept rest] p1 p2 show ?thesis by simp
  qed
qed

subsection \<open>extendExistingStyleRules\<close>

lemma extendList_loop_maps:
  assumes "writes_no_map X"
    and "extendList_loop X exts mctx elems i rest extended s = Returns r s'"
  shows "same_maps s s'"
  using assms
proof (induction rest arbitrary: i extended s)
  case Nil
  then show ?case by (simp add: same_maps_def)
next
  case (Cons complex rest)
  from Cons.prems(2) obtain result s1 where x: "X complex exts mctx s = Returns result s1"
    by (cases "X complex exts mctx s") simp_all
  with Cons.prems(2) obtain ext' where
    "extendList_loop X exts mctx elems (i + 1) rest ext' s1 = Returns r s'"
    by (simp split: if_splits)
  from Cons.IH [OF Cons.prems(1) this] writes_no_mapD [OF Cons.prems(1) x]
  show ?case by (simp add: same_maps_def)
qed

lemma extendList_maps:
  assumes "writes_no_map X" and "extendList fuel A X list exts mctx s = Returns r s'"
  shows "same_maps s s'"
proof -
  from assms(2) obtain extended s1 where
    l: "extendList_loop X exts mctx (lists s list) 0 (lists s list) [] s = Returns extended s1"
    by (cases "extendList_loop X exts mctx (lists s list) 0 (lists s list) [] s")
      (simp_all add: extendList_def)
  from extendList_loop_maps [OF assms(1) l] have "same_maps s s1" .
  moreover from assms(2) l have "same_maps s1 s'"
    by (auto simp: extendList_def same_maps_def split: if_splits option.splits)
  ultimately show ?thesis by (simp add: same_maps_def)
qed

lemma extendExistingStyleRules_maps:
  assumes "writes_no_map X"
    and "extendExistingStyleRules fuel A X rules newExts s = Returns u s'"
  shows "same_maps s s'"
  using assms
proof (induction rules arbitrary: s)
  case Nil
  then show ?case by (simp add: same_maps_def)
next
  case (Cons rule rules)
  from Cons.prems(2) obtain ext s1 where
    x: "extendList fuel A X rule newExts (find_entry (=) (mediaContexts s) rule) s = Returns ext s1"
    by (cases "extendList fuel A X rule newExts (find_entry (=) (mediaContexts s) rule) s")
      (simp_all add: Let_def)
  from extendList_maps [OF Cons.prems(1) x] have m1: "same_maps s s1" .
  from Cons.prems(2) x obtain s2 where
    rest: "extendExistingStyleRules fuel A X rules newExts s2 = Returns u s'"
    and "same_maps s1 s2"
    by (auto simp: Let_def same_maps_def registerSelector_def split: if_splits)
  with Cons.IH [OF Cons.prems(1) rest] m1 show ?case by (simp add: same_maps_def)
qed

subsection \<open>The two calls\<close>

lemma addExtension_Returns_cases:
  assumes "addExtension fuel A X xs tgt opt mctx s = Returns () s1"
    and "addExtension_loop A tgt opt mctx (has_key (equalSimple A) (selectors s) tgt)
           (has_key (equalSimple A) (extensionsByExtender s) tgt) xs []
           (s\<lparr>extensions := touch_entry (equalSimple A) [] tgt (extensions s)\<rparr>) = (new, sl)"
  shows "\<exists>s2. (s2 = sl
               \<or> (new \<noteq> [] \<and> has_key (equalSimple A) (extensionsByExtender s) tgt
                  \<and> (\<exists>add. extendExistingExtensions A X
                         (entry_or_default (equalSimple A) [] (extensionsByExtender sl) tgt)
                         [(tgt, new)] [] sl = Returns add s2)))
            \<and> (s1 = s2
               \<or> (\<exists>bt. extendExistingStyleRules fuel A X
                         (entry_or_default (equalSimple A) [] (selectors s2) tgt) bt s2
                       = Returns () s1))"
  using assms
  by (auto simp: addExtension_def Let_def split: if_splits Outcome.splits)

lemma addExtension_changes:
  assumes X: "writes_no_map X"
    and absent: "\<exists>c \<in> set xs. \<not> present A (extensions s) tgt c"
    and simples: "\<forall>c \<in> set xs. compound_simples (deref c) \<noteq> []"
  shows "addExtension fuel A X xs tgt opt mctx s \<noteq> Returns () s"
proof
  assume ret: "addExtension fuel A X xs tgt opt mctx s = Returns () s"
  let ?s0 = "s\<lparr>extensions := touch_entry (equalSimple A) [] tgt (extensions s)\<rparr>"
  obtain new sl where
    loop: "addExtension_loop A tgt opt mctx (has_key (equalSimple A) (selectors s) tgt)
             (has_key (equalSimple A) (extensionsByExtender s) tgt) xs [] ?s0 = (new, sl)"
    by (cases "addExtension_loop A tgt opt mctx (has_key (equalSimple A) (selectors s) tgt)
             (has_key (equalSimple A) (extensionsByExtender s) tgt) xs [] ?s0") blast
  from absent have "\<exists>c \<in> set xs. \<not> present A (extensions ?s0) tgt c"
    by (simp add: entry_touch present_entry)
  from addExtension_loop_grows [OF loop this simples]
  have grow: "count_entries (extensionsByExtender s) < count_entries (extensionsByExtender sl)"
    by simp
  from addExtension_Returns_cases [OF ret loop] obtain s2 where
    two: "s2 = sl \<or> (\<exists>add. extendExistingExtensions A X
                         (entry_or_default (equalSimple A) [] (extensionsByExtender sl) tgt)
                         [(tgt, new)] [] sl = Returns add s2)"
    and one: "s = s2 \<or> (\<exists>bt. extendExistingStyleRules fuel A X
                         (entry_or_default (equalSimple A) [] (selectors s2) tgt) bt s2
                       = Returns () s)"
    by blast
  from two have "count_entries (extensionsByExtender sl) \<le> count_entries (extensionsByExtender s2)"
    using extendExistingExtensions_count [OF X] by auto
  moreover from one have "extensionsByExtender s = extensionsByExtender s2"
    using extendExistingStyleRules_maps [OF X] by (auto simp: same_maps_def)
  ultimately show False using grow by simp
qed

lemma addExtension_loop_has_key:
  "addExtension_loop A tgt opt mctx hr he xs new s = (new', s') \<Longrightarrow>
   has_key (equalSimple A) (extensions s) k \<Longrightarrow> has_key (equalSimple A) (extensions s') k"
proof (induction xs arbitrary: new s)
  case Nil
  then show ?case by simp
next
  case (Cons c xs)
  show ?case
  proof (cases "has_key (complexKey A) (entry_or_default (equalSimple A) [] (extensions s) tgt) c")
    case True
    with Cons.prems(1) have "addExtension_loop A tgt opt mctx hr he xs new s = (new', s')" by simp
    from Cons.IH [OF this Cons.prems(2)] show ?thesis .
  next
    case False
    with Cons.prems(1) obtain new0 s0 where
      loop: "addExtension_loop A tgt opt mctx hr he xs new0 s0 = (new', s')"
      and e: "extensions s0 = insert_entry (equalSimple A) tgt
                    (insert_entry (complexKey A) c (Extension c (Some tgt) 0 opt False mctx)
                       (entry_or_default (equalSimple A) [] (extensions s) tgt)) (extensions s)"
      by (simp add: Let_def)
    have "has_key (equalSimple A) (extensions s0) k"
      unfolding e using Cons.prems(2) by (rule has_key_insert)
    from Cons.IH [OF loop this] show ?thesis .
  qed
qed

lemma extendExisting_inner_has_key:
  "extendExisting_inner A ext t newExts ce first sels add s = (add', s') \<Longrightarrow>
   has_key (equalSimple A) (extensions s) k \<Longrightarrow> has_key (equalSimple A) (extensions s') k"
proof (induction sels arbitrary: first add s)
  case Nil
  then show ?case by simp
next
  case (Cons complex rest)
  show ?case
  proof (cases "ce \<and> first")
    case True
    with Cons.prems(1) have
      "extendExisting_inner A ext t newExts ce False rest add s = (add', s')" by simp
    from Cons.IH [OF this Cons.prems(2)] show ?thesis .
  next
    case False
    then have nf: "(ce \<and> first) = False" by simp
    from Cons.prems(1) obtain add0 s0 v where
      loop: "extendExisting_inner A ext t newExts ce first rest add0 s0 = (add', s')"
      and e: "extensions s0 = insert_entry (equalSimple A) t v (extensions s)"
      by (auto simp: nf Let_def split: if_splits)
    have "has_key (equalSimple A) (extensions s0) k"
      unfolding e using Cons.prems(2) by (rule has_key_insert)
    from Cons.IH [OF loop this] show ?thesis .
  qed
qed

lemma extendExistingExtensions_has_key:
  assumes "writes_no_map X"
    and "extendExistingExtensions A X old newExts add s = Returns add' s'"
    and "has_key (equalSimple A) (extensions s) k"
  shows "has_key (equalSimple A) (extensions s') k"
  using assms(2,3)
proof (induction old arbitrary: add s)
  case Nil
  then show ?case by simp
next
  case (Cons ext old)
  from Cons.prems(1) obtain t where t: "target ext = Some t"
    by (cases "target ext") simp_all
  let ?s0 = "s\<lparr>extensions := touch_entry (equalSimple A) [] t (extensions s)\<rparr>"
  from Cons.prems(1) t obtain sels s1 where
    x: "X (extender ext) newExts (mediaContext ext) ?s0 = Returns sels s1"
    by (cases "X (extender ext) newExts (mediaContext ext) ?s0") (simp_all add: Let_def)
  from writes_no_mapD [OF assms(1) x]
  have "extensions s1 = touch_entry (equalSimple A) [] t (extensions s)" by simp
  with Cons.prems(2) have k1: "has_key (equalSimple A) (extensions s1) k"
    by (simp add: has_key_touch)
  show ?case
  proof (cases "sels = []")
    case True
    with Cons.prems(1) t x have "extendExistingExtensions A X old newExts add s1 = Returns add' s'"
      by (simp add: Let_def)
    from Cons.IH [OF this k1] show ?thesis .
  next
    case False
    obtain add2 s2 where inner:
      "extendExisting_inner A ext t newExts
         (equalComplex A (deref (hd sels)) (deref (extender ext))) False sels add s1 = (add2, s2)"
      by (cases "extendExisting_inner A ext t newExts
         (equalComplex A (deref (hd sels)) (deref (extender ext))) False sels add s1") blast
    from extendExisting_inner_has_key [OF inner k1]
    have k2: "has_key (equalSimple A) (extensions s2) k" .
    let ?s3 = "(if \<not> equalComplex A (deref (hd sels)) (deref (extender ext)) then
                  s2\<lparr>extensions :=
                       insert_entry (equalSimple A) t
                         (erase_entry (complexKey A) (extender ext)
                            (entry_or_default (equalSimple A) [] (extensions s2) t))
                         (extensions s2)\<rparr>
                else s2)"
    from False Cons.prems(1) t x inner have
      rest: "extendExistingExtensions A X old newExts add2 ?s3 = Returns add' s'"
      by (simp add: Let_def)
    from k2 have "has_key (equalSimple A) (extensions ?s3) k"
      by (simp add: has_key_insert)
    from Cons.IH [OF rest this] show ?thesis .
  qed
qed

lemma addExtension_first:
  assumes X: "writes_no_map X"
    and refl: "\<forall>x. equalSimple A x x"
    and first: "addExtension fuel A X xs tgt opt mctx s = Returns () s1"
  shows "has_key (equalSimple A) (extensions s1) tgt"
    and "(\<forall>c. equalComplex A c c) \<Longrightarrow> addExtension_keeps A X xs tgt opt mctx s \<Longrightarrow>
         \<forall>c \<in> set xs. present A (extensions s1) tgt c"
proof -
  let ?s0 = "s\<lparr>extensions := touch_entry (equalSimple A) [] tgt (extensions s)\<rparr>"
  let ?he = "has_key (equalSimple A) (extensionsByExtender s) tgt"
  obtain new sl where
    loop: "addExtension_loop A tgt opt mctx (has_key (equalSimple A) (selectors s) tgt)
             ?he xs [] ?s0 = (new, sl)"
    by (cases "addExtension_loop A tgt opt mctx (has_key (equalSimple A) (selectors s) tgt)
             ?he xs [] ?s0") blast
  have k0: "has_key (equalSimple A) (extensions ?s0) tgt"
    using refl by (simp add: has_key_touch_self)
  from addExtension_Returns_cases [OF first loop] obtain s2 where
    two: "s2 = sl \<or> (new \<noteq> [] \<and> ?he \<and> (\<exists>add. extendExistingExtensions A X
                         (entry_or_default (equalSimple A) [] (extensionsByExtender sl) tgt)
                         [(tgt, new)] [] sl = Returns add s2))"
    and one: "s1 = s2 \<or> (\<exists>bt. extendExistingStyleRules fuel A X
                         (entry_or_default (equalSimple A) [] (selectors s2) tgt) bt s2
                       = Returns () s1)"
    by blast
  have e12: "extensions s1 = extensions s2"
    using one extendExistingStyleRules_maps [OF X] by (auto simp: same_maps_def)
  from addExtension_loop_has_key [OF loop k0]
  have kl: "has_key (equalSimple A) (extensions sl) tgt" .
  from two kl have "has_key (equalSimple A) (extensions s2) tgt"
    using extendExistingExtensions_has_key [OF X] by auto
  with e12 show "has_key (equalSimple A) (extensions s1) tgt" by simp
  show "\<forall>c \<in> set xs. present A (extensions s1) tgt c"
    if r: "\<forall>c. equalComplex A c c" and keeps: "addExtension_keeps A X xs tgt opt mctx s"
  proof -
    from addExtension_loop_present [OF k0 r loop]
    have pl: "\<forall>c \<in> set xs. present A (extensions sl) tgt c" by simp
    have "\<forall>c \<in> set xs. present A (extensions s2) tgt c"
    proof (cases "s2 = sl")
      case True
      with pl show ?thesis by simp
    next
      case False
      with two obtain add where ne: "new \<noteq> []" and he: ?he
        and e: "extendExistingExtensions A X
                  (entry_or_default (equalSimple A) [] (extensionsByExtender sl) tgt)
                  [(tgt, new)] [] sl = Returns add s2"
        by blast
      from keeps loop ne he have
        "extendExisting_kept A X
           (entry_or_default (equalSimple A) [] (extensionsByExtender sl) tgt)
           [(tgt, new)] [] sl"
        by (simp add: addExtension_keeps_def Let_def)
      from extendExistingExtensions_kept [OF X this e] pl show ?thesis by simp
    qed
    with e12 show ?thesis by simp
  qed
qed

text \<open>
  Claim C7, amended. When \<^verbatim>\<open>addExtension\<close> has returned, a second call with the same
  extender list, target, optional flag and media context skips every extender and
  returns with the state as it was if and only if every extender of the list is
  still a key of \<^verbatim>\<open>extensions[target]\<close>; otherwise it inserts the missing ones again
  and adds to \<open>extensionsByExtender\<close>. And every extender is still a key when the
  first call erased nothing: it did not come to \<^verbatim>\<open>extendExistingExtensions\<close>, or in
  the run of that, every time \<^verbatim>\<open>extendComplex\<close> returned selectors for an extension,
  the first of them was equal to the extender of the extension. (An extender has a
  simple selector; \<^verbatim>\<open>extendComplex\<close> is any function that writes to none of the
  maps, as the one of the source; the comparisons of selectors are reflexive.)
\<close>

theorem addExtension_twice:
  assumes X: "writes_no_map X"
    and refl: "\<forall>x. equalSimple A x x"
    and simples: "\<forall>c \<in> set extender'. compound_simples (deref c) \<noteq> []"
    and first: "addExtension fuel A X extender' tgt optional mctx s = Returns () s1"
  shows "(addExtension fuel' A X extender' tgt optional mctx s1 = Returns () s1)
           = (\<forall>c \<in> set extender'. present A (extensions s1) tgt c)
         \<and> ((\<forall>c. equalComplex A c c) \<and> addExtension_keeps A X extender' tgt optional mctx s
              \<longrightarrow> (\<forall>c \<in> set extender'. present A (extensions s1) tgt c))"
proof (intro conjI impI iffI)
  assume "addExtension fuel' A X extender' tgt optional mctx s1 = Returns () s1"
  with addExtension_changes [OF X _ simples, of A s1 tgt fuel' optional mctx]
  show "\<forall>c \<in> set extender'. present A (extensions s1) tgt c" by blast
next
  assume "\<forall>c \<in> set extender'. present A (extensions s1) tgt c"
  with addExtension_first(1) [OF X refl first]
  show "addExtension fuel' A X extender' tgt optional mctx s1 = Returns () s1"
    by (rule addExtension_skip)
next
  assume "(\<forall>c. equalComplex A c c) \<and> addExtension_keeps A X extender' tgt optional mctx s"
  with addExtension_first(2) [OF X refl first]
  show "\<forall>c \<in> set extender'. present A (extensions s1) tgt c" by blast
qed

subsection \<open>Examples\<close>

text \<open>
  The states \<open>extends_z\<close> and \<open>extends_z_not_d\<close> are the ones after the first call of
  all, for \<^verbatim>\<open>.a {@extend .z}\<close> and for \<^verbatim>\<open>.a:not(.d) {@extend .z}\<close>.
\<close>

lemma extends_z_reached:
  "addExtension fuel class_ops X [classes 1 [''a'']] (Class_Selector ''z'') False None
     (one_off NORMAL {}) = Returns () extends_z"
  by (simp add: knot_eval)

lemma extends_z_not_d_reached:
  "addExtension fuel class_ops X [a_not_d] (Class_Selector ''z'') False None
     (one_off NORMAL {}) = Returns () extends_z_not_d"
  by (simp add: knot_eval)

text \<open>
  After \<^verbatim>\<open>.a:not(.d) {@extend .z}\<close>, the call for \<^verbatim>\<open>.b {@extend .a}\<close>, twice: the
  first call extends the extender \<^verbatim>\<open>.a:not(.d)\<close>, which holds the target, and gets
  \<^verbatim>\<open>.a:not(.d)\<close> first; nothing is erased, and the second call changes nothing.
\<close>

lemma b_first_call:
  "(case addExtension 1 class_ops (extendComplex_rec 3 1 class_ops unify_classes weave_single)
           [classes 3 [''b'']] (Class_Selector ''a'') False None extends_z_not_d of
      Returns u s1 \<Rightarrow> True
    | Throws e s1 \<Rightarrow> False
    | Diverges \<Rightarrow> False)"
  by (simp add: knot_eval)

lemma b_keeps:
  "addExtension_keeps class_ops (extendComplex_rec 3 1 class_ops unify_classes weave_single)
     [classes 3 [''b'']] (Class_Selector ''a'') False None extends_z_not_d"
  by (simp add: knot_eval)

theorem addExtension_twice_witness:
  "writes_no_map (extendComplex_rec 3 1 class_ops unify_classes weave_single)
   \<and> (\<forall>x. equalSimple class_ops x x) \<and> (\<forall>c. equalComplex class_ops c c)
   \<and> compound_simples (deref (classes 3 [''b''])) \<noteq> []
   \<and> has_key (equalSimple class_ops) (extensionsByExtender extends_z_not_d) (Class_Selector ''a'')
   \<and> addExtension_keeps class_ops (extendComplex_rec 3 1 class_ops unify_classes weave_single)
        [classes 3 [''b'']] (Class_Selector ''a'') False None extends_z_not_d
   \<and> (\<exists>s1. addExtension 1 class_ops (extendComplex_rec 3 1 class_ops unify_classes weave_single)
               [classes 3 [''b'']] (Class_Selector ''a'') False None extends_z_not_d = Returns () s1
            \<and> present class_ops (extensions s1) (Class_Selector ''a'') (classes 3 [''b''])
            \<and> addExtension 1 class_ops (extendComplex_rec 3 1 class_ops unify_classes weave_single)
               [classes 3 [''b'']] (Class_Selector ''a'') False None s1 = Returns () s1)"
proof -
  let ?X = "extendComplex_rec 3 1 class_ops unify_classes weave_single"
  have X: "writes_no_map ?X" by (rule extendComplex_rec_maps)
  have r1: "\<forall>x. equalSimple class_ops x x" by (simp add: class_ops_def)
  have r2: "\<forall>c. equalComplex class_ops c c" by (simp add: class_ops_def list_all_iff)
  have simples: "\<forall>c \<in> set [classes 3 [''b'']]. compound_simples (deref c) \<noteq> []"
    by (simp add: compound_simples_def classes_def)
  have he: "has_key (equalSimple class_ops) (extensionsByExtender extends_z_not_d)
              (Class_Selector ''a'')"
    by (simp add: extends_z_not_d_def has_key_def class_ops_def)
  from b_first_call obtain s1 where
    first: "addExtension 1 class_ops ?X [classes 3 [''b'']] (Class_Selector ''a'') False None
              extends_z_not_d = Returns () s1"
    by (cases "addExtension 1 class_ops ?X [classes 3 [''b'']] (Class_Selector ''a'') False None
              extends_z_not_d") simp_all
  from addExtension_twice [OF X r1 simples first, of 1] r2 b_keeps
  have p: "present class_ops (extensions s1) (Class_Selector ''a'') (classes 3 [''b''])"
    and second: "addExtension 1 class_ops ?X [classes 3 [''b'']] (Class_Selector ''a'') False None s1
          = Returns () s1"
    by simp_all
  from simples have "compound_simples (deref (classes 3 [''b''])) \<noteq> []" by simp
  with X r1 r2 he b_keeps first p second show ?thesis by blast
qed

text \<open>
  After \<^verbatim>\<open>.a {@extend .z}\<close>, the call for \<^verbatim>\<open>.a:not(.a) {@extend .a}\<close>, twice: the
  new extension is one of the extensions whose extender holds the target \<^verbatim>\<open>.a\<close>,
  and extending \<^verbatim>\<open>.a:not(.a)\<close> by itself gives
  \<^verbatim>\<open>.a:not(.a):not(.a:not(.a))\<close> first, the \<^verbatim>\<open>:not\<close> being expanded; so
  \<^verbatim>\<open>extendExistingExtensions\<close> erases the extender \<^verbatim>\<open>.a:not(.a)\<close> that the loop had
  inserted. The second call does not find it, inserts it again and returns with
  20 extensions by extender where there were 8.
\<close>

lemma both_calls:
  "(case addExtension 1 class_ops (extendComplex_rec 3 1 class_ops unify_classes weave_single)
           [a_not_a] (Class_Selector ''a'') False None extends_z of
      Returns u s1 \<Rightarrow>
        \<not> present class_ops (extensions s1) (Class_Selector ''a'') a_not_a
        \<and> (case addExtension 1 class_ops (extendComplex_rec 3 1 class_ops unify_classes weave_single)
           [a_not_a] (Class_Selector ''a'') False None s1 of
           Returns u s2 \<Rightarrow> count_entries (extensionsByExtender s1) = 8
                \<and> count_entries (extensionsByExtender s2) = 20
         | Throws e s2 \<Rightarrow> False
         | Diverges \<Rightarrow> False)
    | Throws e s1 \<Rightarrow> False
    | Diverges \<Rightarrow> False)"
  by (simp add: knot_eval)

lemma a_not_a_erased:
  "\<not> addExtension_keeps class_ops (extendComplex_rec 3 1 class_ops unify_classes weave_single)
       [a_not_a] (Class_Selector ''a'') False None extends_z"
  by (simp add: knot_eval)

theorem addExtension_twice_counterexample:
  "\<not> addExtension_keeps class_ops (extendComplex_rec 3 1 class_ops unify_classes weave_single)
       [a_not_a] (Class_Selector ''a'') False None extends_z
   \<and> (case addExtension 1 class_ops (extendComplex_rec 3 1 class_ops unify_classes weave_single)
           [a_not_a] (Class_Selector ''a'') False None extends_z of
      Returns u s1 \<Rightarrow>
        \<not> present class_ops (extensions s1) (Class_Selector ''a'') a_not_a
        \<and> (case addExtension 1 class_ops (extendComplex_rec 3 1 class_ops unify_classes weave_single)
           [a_not_a] (Class_Selector ''a'') False None s1 of
           Returns u s2 \<Rightarrow> count_entries (extensionsByExtender s1) = 8
                \<and> count_entries (extensionsByExtender s2) = 20
         | Throws e s2 \<Rightarrow> False
         | Diverges \<Rightarrow> False)
    | Throws e s1 \<Rightarrow> False
    | Diverges \<Rightarrow> False)"
  using a_not_a_erased both_calls by (rule conjI)

section \<open>Source-map mappings\<close>

lemma unat_pred: "1 \<le> unat (x :: size_t) \<Longrightarrow> unat (x - 1) = unat x - 1"
  by (metis unat_1 unat_sub word_le_nat_alt)

lemma int_unat_bound: "unat (a :: size_t) < 2 ^ 31 \<Longrightarrow> int (unat a) < 2 ^ 31"
  by (metis of_nat_less_iff of_nat_numeral of_nat_power)

lemma int_difference_delta:
  assumes "unat a < 2 ^ 31" "unat b < 2 ^ 31"
  shows "int_difference a b = delta (unat a) (unat b)"
proof -
  have ua: "uint a = int (unat a)" and ub: "uint b = int (unat b)"
    by (rule uint_nat)+
  have "(ucast a :: 32 word) - ucast b = word_of_int (uint a - uint b)"
    by (simp only: ucast_eq wi_hom_sub)
  then have "sint ((ucast a :: 32 word) - ucast b) = signed_take_bit 31 (uint a - uint b)"
    by (simp only: sint_sbintrunc') simp
  also have "\<dots> = uint a - uint b"
  proof (rule signed_take_bit_int_eq_self)
    have "int (unat a) < 2 ^ 31" "int (unat b) < 2 ^ 31"
      by (rule int_unat_bound, rule assms)+
    then show "- (2 ^ 31) \<le> uint a - uint b" "uint a - uint b < 2 ^ 31"
      unfolding ua ub by linarith+
  qed
  finally show ?thesis unfolding ua ub int_difference_def delta_def .
qed

lemma in_int_range_pred:
  "in_int_range x \<Longrightarrow> unat (x - 1) = unat x - 1 \<and> unat (x - 1) < 2 ^ 31"
  using unat_pred [of x] by (auto simp: in_int_range_def)

lemma segment_of_small: "mapping_in_range m \<Longrightarrow> small (segment_of m)"
  using in_int_range_pred
  by (auto simp: mapping_in_range_def small_def segment_of_def dest!: in_int_range_pred)

lemma serialize_loop_text:
  assumes "list_all mapping_in_range ms"
    and "sorted (gen_line q # map (\<lambda>m. gen_line (segment_of m)) ms)"
    and "holds p q" and "small q"
    and "i > 0 \<longleftrightarrow> prev \<noteq> None"
    and "q = (case prev of None \<Rightarrow> Segment 0 0 0 0 0 0 | Some r \<Rightarrow> r)"
  shows "serialize_loop encode i p result ms
           = Some (result @ mappings_text encode prev (map segment_of ms))"
  using assms
proof (induction ms arbitrary: i p result prev q)
  case Nil
  then show ?case by simp
next
  case (Cons m ms)
  let ?s = "segment_of m"
  have rng: "mapping_in_range m" and rest: "list_all mapping_in_range ms"
    using Cons.prems(1) by simp_all
  have le: "gen_line q \<le> gen_line ?s"
    and sorted': "sorted (gen_line ?s # map (\<lambda>m. gen_line (segment_of m)) ms)"
    using Cons.prems(2) by simp_all
  have gl: "unat (line (generated_position m) - 1) = gen_line ?s"
    and gc: "unat (column (generated_position m) - 1) = gen_col ?s"
    and ofl: "unat (file' (original_position m) - 1) = src_idx ?s"
    and ol: "unat (line (original_position m) - 1) = orig_line ?s"
    and oc: "unat (column (original_position m) - 1) = orig_col ?s"
    and ty: "unat (type' m) = node_type ?s"
    using rng by (simp_all add: mapping_in_range_def segment_of_def in_int_range_pred)
  have sm: "small ?s" using rng by (rule segment_of_small)
  have pq: "unat (previous_generated_line p) = gen_line q"
    "unat (previous_generated_column p) = gen_col q"
    "unat (previous_original_file p) = src_idx q"
    "unat (previous_original_line p) = orig_line q"
    "unat (previous_original_column p) = orig_col q"
    "unat (previous_original_type p) = node_type q"
    using Cons.prems(3) by (simp_all add: holds_def)
  have neq: "line (generated_position m) - 1 \<noteq> previous_generated_line p
      \<longleftrightarrow> gen_line ?s - gen_line q > 0"
    using le gl pq(1) by (metis le_neq_implies_less unat_eq_nat_uint zero_less_diff diff_is_0_eq' less_irrefl word_unat_eq_iff)
  have smq: "previous_generated_column p = c \<Longrightarrow> unat c < 2 ^ 31" for c
    using Cons.prems(4) pq(2) by (auto simp: small_def)
  have d_file: "int_difference (file' (original_position m) - 1) (previous_original_file p)
      = delta (src_idx ?s) (src_idx q)"
    using sm Cons.prems(4) by (intro int_difference_delta [THEN trans]) (simp_all add: ofl pq small_def)
  have d_line: "int_difference (line (original_position m) - 1) (previous_original_line p)
      = delta (orig_line ?s) (orig_line q)"
    using sm Cons.prems(4) by (intro int_difference_delta [THEN trans]) (simp_all add: ol pq small_def)
  have d_col: "int_difference (column (original_position m) - 1) (previous_original_column p)
      = delta (orig_col ?s) (orig_col q)"
    using sm Cons.prems(4) by (intro int_difference_delta [THEN trans]) (simp_all add: oc pq small_def)
  have d_type: "int_difference (type' m) (previous_original_type p)
      = delta (node_type ?s) (node_type q)"
    using sm Cons.prems(4) by (intro int_difference_delta [THEN trans]) (simp_all add: ty pq small_def)
  have d_gcol0: "int_difference (column (generated_position m) - 1) 0 = delta (gen_col ?s) 0"
    using sm by (intro int_difference_delta [THEN trans]) (simp_all add: gc small_def)
  have d_gcol: "int_difference (column (generated_position m) - 1) (previous_generated_column p)
      = delta (gen_col ?s) (gen_col q)"
    using sm Cons.prems(4) by (intro int_difference_delta [THEN trans]) (simp_all add: gc pq small_def)
  have qdef: "(case prev of None \<Rightarrow> Segment 0 0 0 0 0 0 | Some r \<Rightarrow> r) = q"
    using Cons.prems(6) by simp
  show ?case
  proof (cases "gen_line ?s - gen_line q > 0")
    case True
    then have ne: "line (generated_position m) - 1 \<noteq> previous_generated_line p"
      using neq by simp
    have gt: "line (generated_position m) - 1 > previous_generated_line p"
      using True gl pq(1) by (simp add: word_less_nat_alt)
    have cnt: "unat (line (generated_position m) - 1 - previous_generated_line p)
        = gen_line ?s - gen_line q"
      using gt gl pq(1) by (simp add: unat_sub word_le_nat_alt word_less_nat_alt)
    have "gen_line ?s < 2 ^ 31"
      using in_int_range_pred [of "line (generated_position m)"] rng gl
      by (simp add: mapping_in_range_def)
    then have fits: "\<not> gen_line ?s - gen_line q > max_size"
      by (simp add: max_size_def)
    have h: "holds (Previous (line (generated_position m) - 1) (column (generated_position m) - 1)
        (line (original_position m) - 1) (column (original_position m) - 1)
        (file' (original_position m) - 1) (type' m)) ?s"
      by (simp add: holds_def gl gc ofl ol oc ty)
    show ?thesis
      using True ne gt cnt fits d_file d_line d_col d_type d_gcol0 qdef
        Cons.IH [OF rest sorted' h sm, of "i + 1" "Some ?s"]
      by (simp add: Let_def)
  next
    case False
    then have eq: "line (generated_position m) - 1 = previous_generated_line p"
      using neq by simp
    have h: "holds (Previous (previous_generated_line p) (column (generated_position m) - 1)
        (line (original_position m) - 1) (column (original_position m) - 1)
        (file' (original_position m) - 1) (type' m)) ?s"
      using gl by (simp add: holds_def gc ofl ol oc ty eq)
    show ?thesis
      using False eq d_file d_line d_col d_type d_gcol qdef Cons.prems(5)
        Cons.IH [OF rest sorted' h sm, of "i + 1" "Some ?s"]
      by (simp add: Let_def)
  qed
qed

text \<open>
  Claim C8, amended. For mappings whose generated lines never decrease, with positions
  counted from 1 and all numbers within the range of \<^verbatim>\<open>int\<close>, the mappings string
  is returned and is the concatenation of one segment per mapping: one \<open>;\<close> for each generated
  line advanced since the segment before (none of them resets anything but the base
  of the generated column, which goes back to 0), a \<open>,\<close> between two segments of
  the same generated line, and then always five fields, each the difference to the
  same field of the segment before: generated column, source index, original line,
  original column and the type of the mapping's node (not an index into
  \<^verbatim>\<open>names\<close>, which stays empty). This holds for every encoder of the fields.
\<close>

theorem serialize_mappings_text:
  assumes "list_all mapping_in_range ms"
    and "sorted (map (\<lambda>m. unat (line (generated_position m))) ms)"
  shows "serialize_mappings encode ms = Some (mappings_text encode None (map segment_of ms))"
proof -
  have "sorted (map (\<lambda>m. gen_line (segment_of m)) ms)"
    using assms(2) by (induction ms) (auto simp: segment_of_def)
  then have "sorted (gen_line (Segment 0 0 0 0 0 0) # map (\<lambda>m. gen_line (segment_of m)) ms)"
    by simp
  then show ?thesis
    unfolding serialize_mappings_def
    using serialize_loop_text [OF assms(1), of "Segment 0 0 0 0 0 0" "Previous 0 0 0 0 0 0" 0 None encode "[]"]
    by (simp add: holds_def small_def)
qed

theorem serialize_mappings_text_witness:
  "list_all mapping_in_range
     [Mapping (Position 1 1 1) (Position 1 1 1) 0, Mapping (Position 1 1 5) (Position 1 1 9) 0,
      Mapping (Position 1 2 3) (Position 1 3 3) 7]
   \<and> sorted (map (\<lambda>m. unat (line (generated_position m)))
     [Mapping (Position 1 1 1) (Position 1 1 1) 0, Mapping (Position 1 1 5) (Position 1 1 9) 0,
      Mapping (Position 1 2 3) (Position 1 3 3) 7])
   \<and> serialize_mappings base64vlq_encode
     [Mapping (Position 1 1 1) (Position 1 1 1) 0, Mapping (Position 1 1 5) (Position 1 1 9) 0,
      Mapping (Position 1 2 3) (Position 1 3 3) 7]
     = Some (mappings_text base64vlq_encode None
         [Segment 0 0 0 0 0 0, Segment 0 8 0 0 4 0, Segment 2 2 0 1 2 7])
   \<and> mappings_text base64vlq_encode None
         [Segment 0 0 0 0 0 0, Segment 0 8 0 0 4 0, Segment 2 2 0 1 2 7]
     = ''AAAAA,QAAIA;;EACFO''"
proof -
  have range: "list_all mapping_in_range
     [Mapping (Position 1 1 1) (Position 1 1 1) 0, Mapping (Position 1 1 5) (Position 1 1 9) 0,
      Mapping (Position 1 2 3) (Position 1 3 3) 7]"
    by (simp add: mapping_in_range_def in_int_range_def)
  have lines: "sorted (map (\<lambda>m. unat (line (generated_position m)))
     [Mapping (Position 1 1 1) (Position 1 1 1) 0, Mapping (Position 1 1 5) (Position 1 1 9) 0,
      Mapping (Position 1 2 3) (Position 1 3 3) 7])"
    by simp
  have segs: "map segment_of
     [Mapping (Position 1 1 1) (Position 1 1 1) 0, Mapping (Position 1 1 5) (Position 1 1 9) 0,
      Mapping (Position 1 2 3) (Position 1 3 3) 7]
     = [Segment 0 0 0 0 0 0, Segment 0 8 0 0 4 0, Segment 2 2 0 1 2 7]"
    by (simp add: segment_of_def)
  have str: "mappings_text base64vlq_encode None
         [Segment 0 0 0 0 0 0, Segment 0 8 0 0 4 0, Segment 2 2 0 1 2 7]
     = ''AAAAA,QAAIA;;EACFO''"
    by (simp add: delta_def base64vlq_encode_def vlq_digits.simps base64_chars_def
        numeral_2_eq_2)
  note main = serialize_mappings_text [OF range lines, of base64vlq_encode, unfolded segs]
  show ?thesis
    by (rule conjI [OF range conjI [OF lines conjI [OF main str]]])
qed

lemma unat_max: "unat (- 1 :: size_t) = 18446744073709551615"
  by (simp add: unsigned_minus_1_eq_mask mask_eq_exp_minus_1)

text \<open>
  Claim C8 as stated fails in four ways.
  The fifth field is there for every mapping, and it is the difference of the types
  of the nodes: one mapping of type 7 gives \<open>AAAAO\<close>, whose fifth field \<open>O\<close> is 7, and
  \<^verbatim>\<open>names\<close> has no entry that 7 could be the index of; a mapping of type 0 gives five
  fields as well.
  A number beyond the range of \<^verbatim>\<open>int\<close> is cut by \<^verbatim>\<open>static_cast<int>\<close>: the generated
  column 4294967297 is written like the column 1.
  A generated line 0 makes \<^verbatim>\<open>generated_line\<close> wrap around, and the string constructor
  throws.
  When the generated line goes back (\<^verbatim>\<open>remove_line\<close> decrements the line of the
  output position), the inner test writes no \<open>;\<close> and the \<open>,\<close> is in the other
  branch, so nothing separates the two segments: the text after the \<open>;\<close> is one
  piece of ten fields.
\<close>

theorem serialize_mappings_format_counterexample:
  "serialize_mappings base64vlq_encode [Mapping (Position 1 1 1) (Position 1 1 1) 7]
     = Some ''AAAAO''
   \<and> map field_count (split_segments [] ''AAAAO'') = [5]
   \<and> base64vlq_encode (int (unat (type' (Mapping (Position 1 1 1) (Position 1 1 1) 7)))) = ''O''
   \<and> \<not> unat (type' (Mapping (Position 1 1 1) (Position 1 1 1) 7)) < length json_names
   \<and> serialize_mappings base64vlq_encode [Mapping (Position 1 1 1) (Position 1 1 1) 0]
     = Some ''AAAAA''
   \<and> serialize_mappings base64vlq_encode
         [Mapping (Position 1 1 1) (Position 1 1 4294967297) 0]
     = Some ''AAAAA''
   \<and> serialize_mappings base64vlq_encode [Mapping (Position 1 1 1) (Position 1 0 1) 0] = None
   \<and> serialize_mappings base64vlq_encode
     [Mapping (Position 1 1 1) (Position 1 2 1) 0, Mapping (Position 1 1 1) (Position 1 1 1) 0]
     = Some '';AAAAAAAAAA''
   \<and> map field_count (split_segments [] '';AAAAAAAAAA'') = [0, 10]
   \<and> \<not> four_or_five_fields '';AAAAAAAAAA''"
  by (simp add: serialize_mappings_def int_difference_def base64vlq_encode_def
      vlq_digits.simps base64_chars_def Let_def four_or_five_fields_def field_count_def
      json_names_def max_size_def word_less_nat_alt unat_max)

section \<open>Emitting a number\<close>

lemma invalid_units_iff: "invalid_units n \<longleftrightarrow> unit_product_or_quotient n"
proof (cases "numerator_units n")
  case Nil
  then show ?thesis by (simp add: invalid_units_def unit_product_or_quotient_def)
next
  case (Cons u us)
  then show ?thesis
    by (cases us) (auto simp: invalid_units_def unit_product_or_quotient_def)
qed

lemma strip_zeros_snoc:
  "strip_zeros (d @ [c]) = (if c = CHR ''0'' then strip_zeros d else Some (d @ [c]))"
  by (subst strip_zeros.simps) simp

lemma strip_zeros_point:
  "strip_zeros (ip @ CHR ''.'' # fr) = Some (ip @ CHR ''.'' # strip_fraction fr)"
proof (induction fr rule: rev_induct)
  case Nil
  show ?case
    using strip_zeros_snoc [of ip "CHR ''.''"] by (simp add: strip_fraction_def)
next
  case (snoc c fr)
  show ?case
    using strip_zeros_snoc [of "ip @ CHR ''.'' # fr" c] snoc
    by (simp add: strip_fraction_def)
qed

lemma strip_fraction_last: "strip_fraction fr \<noteq> [] \<Longrightarrow> last (strip_fraction fr) \<noteq> CHR ''0''"
  unfolding strip_fraction_def
  by (metis (mono_tags, lifting) dropWhile_eq_Nil_conv hd_dropWhile last_rev rev_is_Nil_conv)

text \<open>
  With a decimal point in the printed text (a precision of at least 1) the function
  does what its comments say: the error is raised exactly for the units of
  \<open>invalid_units\<close>; otherwise the number is emitted with the trailing zeros of the
  fraction stripped, \<open>-0\<close> as \<open>0\<close>, and \<open>0.0\<close> for a value that is not zero.
\<close>

lemma Inspect_Number_point:
  assumes "value_fixed n = ip @ CHR ''.'' # fr" and "CHR ''.'' \<notin> set fr"
  shows "Inspect_Number idl n =
     (if invalid_units n
      then Some (Inl (Error_Invalid (printed ip fr @ unit' n @ '' isn't a valid CSS value.'')))
      else
        let d1 = printed ip fr;
            d2 = (if \<not> zero' n \<and> \<not> idl then leading_zero d1 else d1);
            d3 = (if d2 = ''-0'' then ''0'' else d2);
            d4 = (if d3 = ''0'' \<and> value_nonzero n then ''0.0'' else d3)
        in Some (Inr (d4 @ unit' n)))"
proof -
  have nodot: "strip_fraction fr \<noteq> [] \<Longrightarrow> last (strip_fraction fr) \<noteq> CHR ''.''"
  proof
    assume a: "strip_fraction fr \<noteq> []" and b: "last (strip_fraction fr) = CHR ''.''"
    have "set (strip_fraction fr) \<subseteq> set fr"
      unfolding strip_fraction_def using set_dropWhileD by fastforce
    with a b assms(2) show False
      using last_in_set by fastforce
  qed
  have d1: "(let d0 = ip @ CHR ''.'' # strip_fraction fr
             in if d0 ! (length d0 - 1) = CHR ''.'' then take (length d0 - 1) d0 else d0)
            = printed ip fr"
  proof (cases "strip_fraction fr = []")
    case True
    then show ?thesis by (simp add: printed_def nth_append)
  next
    case False
    have "(ip @ CHR ''.'' # strip_fraction fr) ! (length (ip @ CHR ''.'' # strip_fraction fr) - 1)
        = last (strip_fraction fr)"
      using False by (metis append_is_Nil_conv last.simps last_append last_conv_nth list.distinct(1))
    with False nodot show ?thesis by (simp add: printed_def Let_def)
  qed
  show ?thesis
    using d1 by (simp add: Inspect_Number_def assms(1) strip_zeros_point Let_def erase_def)
qed

text \<open>
  Claim C9 at a precision of 0, where the printed text has no decimal point. The loop
  that strips the zeros does not stop at the end of the fraction: the number 100
  without units is printed as \<open>100\<close> and emitted as \<open>1\<close>, and a value printed as
  \<open>0\<close> (0.4, which is not zero) empties the string, after which the loop reads
  outside it; the same happens before the unit check for \<open>0.4px*em\<close>, so no error
  is raised there either.
\<close>

theorem Inspect_Number_precision_zero:
  "Inspect_Number False
     \<lparr>value_fixed = ''100'', value_nonzero = True, numerator_units = [],
      denominator_units = [], unit' = [], zero' = True\<rparr> = Some (Inr ''1'')
   \<and> Inspect_Number False
     \<lparr>value_fixed = ''0'', value_nonzero = True, numerator_units = [],
      denominator_units = [], unit' = [], zero' = True\<rparr> = None
   \<and> Inspect_Number False
     \<lparr>value_fixed = ''0'', value_nonzero = True, numerator_units = [''px'', ''em''],
      denominator_units = [], unit' = ''px*em'', zero' = True\<rparr> = None"
  by (simp add: Inspect_Number_def strip_zeros.simps invalid_units_def)

text \<open>The same three numbers at the default precision of 5.\<close>

lemma Inspect_Number_precision_five:
  "Inspect_Number False
     \<lparr>value_fixed = ''100.00000'', value_nonzero = True, numerator_units = [],
      denominator_units = [], unit' = [], zero' = True\<rparr> = Some (Inr ''100'')
   \<and> Inspect_Number False
     \<lparr>value_fixed = ''0.00000'', value_nonzero = True, numerator_units = [],
      denominator_units = [], unit' = [], zero' = True\<rparr> = Some (Inr ''0.0'')
   \<and> Inspect_Number False
     \<lparr>value_fixed = ''0.00000'', value_nonzero = True, numerator_units = [''px'', ''em''],
      denominator_units = [], unit' = ''px*em'', zero' = True\<rparr>
     = Some (Inl (Error_Invalid ''0px*em isn't a valid CSS value.''))"
  by (simp add: Inspect_Number_def strip_zeros.simps invalid_units_def erase_def)

section \<open>Quoting and unquoting\<close>

lemma quote_loop_escape: "quote_loop s q t = t @ escape_quotes q s"
  by (induction s arbitrary: t) auto

lemma unquote_loop_unescape:
  "pre \<noteq> [] \<Longrightarrow>
   unquote_loop (pre @ cs @ z) q (length pre) (length pre + length cs) t
     = unescape_quotes (last pre) q cs t"
proof (induction cs arbitrary: pre t)
  case Nil
  then show ?case by (simp add: unquote_loop.simps)
next
  case (Cons c cs)
  have before: "(pre @ (c # cs) @ z) ! (length pre - 1) = last pre"
    using Cons.prems by (simp add: nth_append last_conv_nth)
  have here: "(pre @ (c # cs) @ z) ! length pre = c"
    by (simp add: nth_append)
  have "unquote_loop (pre @ (c # cs) @ z) q (length pre) (length pre + length (c # cs)) t
      = unquote_loop ((pre @ [c]) @ cs @ z) q (length (pre @ [c])) (length (pre @ [c]) + length cs)
          ((if last pre = CHR 0x5C \<and> c = q then butlast t else t) @ [c])"
    using before here by (subst unquote_loop.simps) simp
  also have "\<dots> = unescape_quotes (last (pre @ [c])) q cs
      ((if last pre = CHR 0x5C \<and> c = q then butlast t else t) @ [c])"
    by (rule Cons.IH) simp
  finally show ?case by simp
qed

lemma unescape_escape: "q \<noteq> CHR 0x5C \<Longrightarrow> unescape_quotes prev q (escape_quotes q s) t = t @ s"
  by (induction s arbitrary: prev t) auto

text \<open>
  Claim C10. For a string \<open>s\<close> that is empty or does not start with a quote mark, and
  a quote character \<open>q\<close> that is the double or the single quote, unquoting the quoted
  string gives \<open>s\<close> back; the quoted string is \<open>s\<close> with a backslash before every
  embedded \<open>q\<close>, wrapped in \<open>q\<close>.
\<close>

theorem unquote_quote:
  assumes "s = [] \<or> (hd s \<noteq> CHR 0x22 \<and> hd s \<noteq> CHR 0x27)"
    and "q = CHR 0x22 \<or> q = CHR 0x27"
  shows "unquote (quote s q) = s \<and> quote s q = [q] @ escape_quotes q s @ [q]"
proof (cases "s = []")
  case True
  with assms(2) show ?thesis
    by (auto simp: quote_def unquote_def unquote_loop.simps numeral_2_eq_2)
next
  case False
  have qbs: "q \<noteq> CHR 0x5C" and q0: "q \<noteq> CHR 0x00"
    using assms(2) by auto
  have Q: "quote s q = [q] @ escape_quotes q s @ [q]"
    using False assms(1) q0 by (simp add: quote_def quote_loop_escape)
  have L: "unquote_loop ([q] @ escape_quotes q s @ [q]) q 1
             (length ([q] @ escape_quotes q s @ [q]) - 1) [] = s"
    using unquote_loop_unescape [of "[q]" "escape_quotes q s" "[q]" q "[]"]
      unescape_escape [OF qbs, of q s "[]"]
    by simp
  have "unquote (quote s q) = s"
    unfolding Q using L assms(2) by (auto simp: unquote_def)
  with Q show ?thesis by simp
qed

theorem unquote_quote_witness:
  "unquote (quote [CHR ''a'', CHR 0x22, CHR 0x5C, CHR 0x27, CHR ''b''] (CHR 0x22))
     = [CHR ''a'', CHR 0x22, CHR 0x5C, CHR 0x27, CHR ''b'']
   \<and> quote [CHR ''a'', CHR 0x22, CHR 0x5C, CHR 0x27, CHR ''b''] (CHR 0x22)
     = [CHR 0x22, CHR ''a'', CHR 0x5C, CHR 0x22, CHR 0x5C, CHR 0x27, CHR ''b'', CHR 0x22]"
proof -
  have both: "unquote (quote [CHR ''a'', CHR 0x22, CHR 0x5C, CHR 0x27, CHR ''b''] (CHR 0x22))
       = [CHR ''a'', CHR 0x22, CHR 0x5C, CHR 0x27, CHR ''b'']
     \<and> quote [CHR ''a'', CHR 0x22, CHR 0x5C, CHR 0x27, CHR ''b''] (CHR 0x22)
       = [CHR 0x22] @ escape_quotes (CHR 0x22) [CHR ''a'', CHR 0x22, CHR 0x5C, CHR 0x27, CHR ''b'']
           @ [CHR 0x22]"
    by (rule unquote_quote) simp_all
  have esc: "[CHR 0x22] @ escape_quotes (CHR 0x22) [CHR ''a'', CHR 0x22, CHR 0x5C, CHR 0x27, CHR ''b'']
           @ [CHR 0x22]
       = [CHR 0x22, CHR ''a'', CHR 0x5C, CHR 0x22, CHR 0x5C, CHR 0x27, CHR ''b'', CHR 0x22]"
    by simp
  from both show ?thesis
    unfolding esc .
qed

end
